theory Spec2Isabelle
  imports Complex_Main
begin

section \<open>Data model\<close>

text \<open>
  The two colour strings of the source become a two-valued datatype: \<open>White\<close> is the
  string every test \<open>color == ...\<close> of the source compares with, \<open>Black\<close> the other one.
\<close>

datatype color = White | Black

text \<open>
  \<open>name\<close> is what \<open>type(x).__name__\<close> returns for the classes of chess.py. A Demon
  carries its attribute \<open>power\<close>, which holds such a name. The attribute \<open>symbol\<close> is a
  function of colour and class and is only read by \<open>display\<close>; it is left out.
\<close>

datatype name = NPawn | NRook | NKnight | NBishop | NQueen | NKing | NMage | NSpearman | NDemon

datatype kind = Pawn | Rook | Knight | Bishop | Queen | King | Mage | Spearman | Demon name

datatype figure = Figure (color: color) (kind: kind)

fun type_name :: "kind \<Rightarrow> name" where
  "type_name Pawn = NPawn"
| "type_name Rook = NRook"
| "type_name Knight = NKnight"
| "type_name Bishop = NBishop"
| "type_name Queen = NQueen"
| "type_name King = NKing"
| "type_name Mage = NMage"
| "type_name Spearman = NSpearman"
| "type_name (Demon p) = NDemon"

text \<open>\<open>construct n\<close> is the kind of the object \<open>globals()[n](color)\<close>: a new Demon has power King.\<close>

fun construct :: "name \<Rightarrow> kind" where
  "construct NPawn = Pawn"
| "construct NRook = Rook"
| "construct NKnight = Knight"
| "construct NBishop = Bishop"
| "construct NQueen = Queen"
| "construct NKing = King"
| "construct NMage = Mage"
| "construct NSpearman = Spearman"
| "construct NDemon = Demon NKing"

datatype error = IndexError | AttributeError | TypeError

text \<open>
  A computation of the source either does not return (\<open>None\<close>), raises (\<open>Some (Inl e)\<close>)
  or returns a value (\<open>Some (Inr v)\<close>).
\<close>

type_synonym 'a result = "(error + 'a) option"

type_synonym 'a grid = "'a option list list"

type_synonym squares = "(int \<times> int) list"

subsection \<open>Python list indexing\<close>

text \<open>
  A subscript \<open>i\<close> of a list of length \<open>len\<close>: accepted from \<open>-len\<close> to \<open>len - 1\<close>, and
  counted from the end when it is negative.
\<close>

definition subscript :: "nat \<Rightarrow> int \<Rightarrow> error + nat" where
  "subscript len i =
     (if 0 \<le> i \<and> i < int len then Inr (nat i)
      else if i < 0 \<and> - int len \<le> i then Inr (nat (i + int len))
      else Inl IndexError)"

text \<open>\<open>xs[i]\<close>\<close>

definition getitem :: "'a list \<Rightarrow> int \<Rightarrow> error + 'a" where
  "getitem xs i = (case subscript (length xs) i of Inl e \<Rightarrow> Inl e | Inr k \<Rightarrow> Inr (xs ! k))"

text \<open>\<open>xs[i] = v\<close>\<close>

definition setitem :: "'a list \<Rightarrow> int \<Rightarrow> 'a \<Rightarrow> error + 'a list" where
  "setitem xs i v =
     (case subscript (length xs) i of Inl e \<Rightarrow> Inl e | Inr k \<Rightarrow> Inr (xs[k := v]))"

definition check_pos :: "int \<Rightarrow> int \<Rightarrow> bool" where
  "check_pos end_row end_col \<longleftrightarrow> 0 \<le> end_row \<and> end_row < 8 \<and> 0 \<le> end_col \<and> end_col < 8"

text \<open>\<open>Board.get_figure\<close>: \<open>self.board[row][col]\<close>\<close>

definition get_figure :: "'a grid \<Rightarrow> int \<Rightarrow> int \<Rightarrow> error + 'a option" where
  "get_figure board row col =
     (case getitem board row of Inl e \<Rightarrow> Inl e | Inr r \<Rightarrow> getitem r col)"

text \<open>
  The assignment \<open>self.board[row][col] = v\<close>. The rows of the board are eight separate
  lists, so the assignment changes one cell of one row.
\<close>

definition set_figure :: "'a grid \<Rightarrow> int \<Rightarrow> int \<Rightarrow> 'a option \<Rightarrow> error + 'a grid" where
  "set_figure board row col v =
     (case getitem board row of
        Inl e \<Rightarrow> Inl e
      | Inr r \<Rightarrow>
          (case setitem r col v of
             Inl e \<Rightarrow> Inl e
           | Inr r' \<Rightarrow> setitem board row r'))"

section \<open>Chess: movement rules\<close>

subsection \<open>Pawn\<close>

text \<open>The loop \<open>for col in [start_col - 1, start_col + 1]\<close> of \<open>Pawn.get_possible_moves\<close>.\<close>

fun pawn_attack :: "figure grid \<Rightarrow> color \<Rightarrow> int \<Rightarrow> int list \<Rightarrow> squares \<Rightarrow> error + squares" where
  "pawn_attack board me new_row [] moves = Inr moves"
| "pawn_attack board me new_row (col # cols) moves =
     (if check_pos new_row col then
        (case get_figure board new_row col of
           Inl e \<Rightarrow> Inl e
         | Inr None \<Rightarrow> pawn_attack board me new_row cols moves
         | Inr (Some target_figure) \<Rightarrow>
             pawn_attack board me new_row cols
               (if color target_figure \<noteq> me then moves @ [(new_row, col)] else moves))
      else pawn_attack board me new_row cols moves)"

text \<open>The forward steps of \<open>Pawn.get_possible_moves\<close> (one square, then two from the home rank).\<close>

definition pawn_forward :: "figure grid \<Rightarrow> color \<Rightarrow> int \<Rightarrow> int \<Rightarrow> error + squares" where
  "pawn_forward board me start_row start_col =
     (let direction = (if me = White then - 1 else 1);
          new_row = start_row + direction
      in if check_pos new_row start_col then
           (case get_figure board new_row start_col of
              Inl e \<Rightarrow> Inl e
            | Inr (Some f) \<Rightarrow> Inr []
            | Inr None \<Rightarrow>
                (if me = White \<and> start_row = 6 \<or> me = Black \<and> start_row = 1 then
                   (let new_row2 = start_row + 2 * direction
                    in if check_pos new_row2 start_col then
                         (case get_figure board new_row2 start_col of
                            Inl e \<Rightarrow> Inl e
                          | Inr (Some f) \<Rightarrow> Inr [(new_row, start_col)]
                          | Inr None \<Rightarrow> Inr [(new_row, start_col), (new_row2, start_col)])
                       else Inr [(new_row, start_col)])
                 else Inr [(new_row, start_col)]))
         else Inr [])"

definition Pawn_get_possible_moves :: "figure grid \<Rightarrow> color \<Rightarrow> int \<Rightarrow> int \<Rightarrow> error + squares" where
  "Pawn_get_possible_moves board me start_row start_col =
     (case pawn_forward board me start_row start_col of
        Inl e \<Rightarrow> Inl e
      | Inr moves \<Rightarrow>
          pawn_attack board me (start_row + (if me = White then - 1 else 1))
            [start_col - 1, start_col + 1] moves)"

subsection \<open>Rook, Bishop, Queen\<close>

text \<open>
  The \<open>while self.check_pos(row, col)\<close> loop, which \<open>Rook.get_possible_moves\<close> and
  \<open>Bishop.get_possible_moves\<close> share word for word. With the step \<open>(0, 0)\<close> on an empty
  square the loop would not return, so the result is an option.
\<close>

partial_function (option) slide ::
  "figure grid \<Rightarrow> color \<Rightarrow> int \<Rightarrow> int \<Rightarrow> int \<Rightarrow> int \<Rightarrow> squares \<Rightarrow> (error + squares) option" where
  "slide board me y x row col moves =
     (if check_pos row col then
        (case get_figure board row col of
           Inl e \<Rightarrow> Some (Inl e)
         | Inr None \<Rightarrow> slide board me y x (row + y) (col + x) (moves @ [(row, col)])
         | Inr (Some piece) \<Rightarrow>
             Some (Inr (if color piece \<noteq> me then moves @ [(row, col)] else moves)))
      else Some (Inr moves))"

declare slide.simps [code]

text \<open>The loop \<open>for y, x in directions\<close> around it.\<close>

fun slide_all ::
  "figure grid \<Rightarrow> color \<Rightarrow> int \<Rightarrow> int \<Rightarrow> (int \<times> int) list \<Rightarrow> squares \<Rightarrow> squares result" where
  "slide_all board me start_row start_col [] moves = Some (Inr moves)"
| "slide_all board me start_row start_col ((y, x) # directions) moves =
     (case slide board me y x (start_row + y) (start_col + x) moves of
        None \<Rightarrow> None
      | Some (Inl e) \<Rightarrow> Some (Inl e)
      | Some (Inr moves') \<Rightarrow> slide_all board me start_row start_col directions moves')"

definition rook_directions :: "(int \<times> int) list" where
  "rook_directions = [(- 1, 0), (1, 0), (0, - 1), (0, 1)]"

definition bishop_directions :: "(int \<times> int) list" where
  "bishop_directions = [(- 1, - 1), (- 1, 1), (1, - 1), (1, 1)]"

definition Rook_get_possible_moves :: "figure grid \<Rightarrow> color \<Rightarrow> int \<Rightarrow> int \<Rightarrow> squares result" where
  "Rook_get_possible_moves board me start_row start_col =
     slide_all board me start_row start_col rook_directions []"

definition Bishop_get_possible_moves :: "figure grid \<Rightarrow> color \<Rightarrow> int \<Rightarrow> int \<Rightarrow> squares result" where
  "Bishop_get_possible_moves board me start_row start_col =
     slide_all board me start_row start_col bishop_directions []"

text \<open>\<open>Rook(self.color).get_possible_moves(...) + Bishop(self.color).get_possible_moves(...)\<close>\<close>

definition Queen_get_possible_moves :: "figure grid \<Rightarrow> color \<Rightarrow> int \<Rightarrow> int \<Rightarrow> squares result" where
  "Queen_get_possible_moves board me start_row start_col =
     (case Rook_get_possible_moves board me start_row start_col of
        None \<Rightarrow> None
      | Some (Inl e) \<Rightarrow> Some (Inl e)
      | Some (Inr rs) \<Rightarrow>
          (case Bishop_get_possible_moves board me start_row start_col of
             None \<Rightarrow> None
           | Some (Inl e) \<Rightarrow> Some (Inl e)
           | Some (Inr bs) \<Rightarrow> Some (Inr (rs @ bs))))"

subsection \<open>Knight, King, Spearman\<close>

text \<open>
  The loop \<open>for row, col in get_possible_moves\<close> over a table of candidate squares, the same
  in the three classes. The source reads the square twice (\<open>is None\<close>, then \<open>.color\<close>);
  the board does not change in between, so the model reads it once.
\<close>

fun candidates_loop :: "figure grid \<Rightarrow> color \<Rightarrow> (int \<times> int) list \<Rightarrow> squares \<Rightarrow> error + squares" where
  "candidates_loop board me [] moves = Inr moves"
| "candidates_loop board me ((row, col) # rest) moves =
     (if check_pos row col then
        (case get_figure board row col of
           Inl e \<Rightarrow> Inl e
         | Inr None \<Rightarrow> candidates_loop board me rest (moves @ [(row, col)])
         | Inr (Some f) \<Rightarrow>
             candidates_loop board me rest
               (if color f \<noteq> me then moves @ [(row, col)] else moves))
      else candidates_loop board me rest moves)"

definition Knight_get_possible_moves :: "figure grid \<Rightarrow> color \<Rightarrow> int \<Rightarrow> int \<Rightarrow> error + squares" where
  "Knight_get_possible_moves board me start_row start_col =
     candidates_loop board me
       [(start_row - 2, start_col - 1), (start_row - 2, start_col + 1),
        (start_row - 1, start_col - 2), (start_row - 1, start_col + 2),
        (start_row + 1, start_col - 2), (start_row + 1, start_col + 2),
        (start_row + 2, start_col - 1), (start_row + 2, start_col + 1)] []"

definition King_get_possible_moves :: "figure grid \<Rightarrow> color \<Rightarrow> int \<Rightarrow> int \<Rightarrow> error + squares" where
  "King_get_possible_moves board me start_row start_col =
     candidates_loop board me
       [(start_row - 1, start_col - 1), (start_row - 1, start_col), (start_row - 1, start_col + 1),
        (start_row, start_col - 1), (start_row, start_col + 1),
        (start_row + 1, start_col - 1), (start_row + 1, start_col), (start_row + 1, start_col + 1)] []"

definition Spearman_get_possible_moves :: "figure grid \<Rightarrow> color \<Rightarrow> int \<Rightarrow> int \<Rightarrow> error + squares" where
  "Spearman_get_possible_moves board me start_row start_col =
     (let direction = (if me = White then - 1 else 1)
      in candidates_loop board me
           [(start_row + direction, start_col - 1), (start_row + direction, start_col),
            (start_row + direction, start_col + 1)] [])"

subsection \<open>Dispatch on the class\<close>

text \<open>
  \<open>figure.get_possible_moves(board, start_row, start_col)\<close>. Mage inherits the method of
  \<open>Figure\<close>, which returns the empty list. Demon builds a new piece of the class named by
  its power, of its own colour, and asks that piece.
\<close>

function get_possible_moves :: "figure \<Rightarrow> figure grid \<Rightarrow> int \<Rightarrow> int \<Rightarrow> squares result" where
  "get_possible_moves (Figure c Pawn) board start_row start_col =
     Some (Pawn_get_possible_moves board c start_row start_col)"
| "get_possible_moves (Figure c Rook) board start_row start_col =
     Rook_get_possible_moves board c start_row start_col"
| "get_possible_moves (Figure c Knight) board start_row start_col =
     Some (Knight_get_possible_moves board c start_row start_col)"
| "get_possible_moves (Figure c Bishop) board start_row start_col =
     Bishop_get_possible_moves board c start_row start_col"
| "get_possible_moves (Figure c Queen) board start_row start_col =
     Queen_get_possible_moves board c start_row start_col"
| "get_possible_moves (Figure c King) board start_row start_col =
     Some (King_get_possible_moves board c start_row start_col)"
| "get_possible_moves (Figure c Mage) board start_row start_col = Some (Inr [])"
| "get_possible_moves (Figure c Spearman) board start_row start_col =
     Some (Spearman_get_possible_moves board c start_row start_col)"
| "get_possible_moves (Figure c (Demon p)) board start_row start_col =
     get_possible_moves (Figure c (construct p)) board start_row start_col"
  by pat_completeness auto
termination
  by (relation "measure (\<lambda>(f, board, r, c).
        (case kind f of Demon NDemon \<Rightarrow> 2 | Demon p \<Rightarrow> 1 | _ \<Rightarrow> 0))")
     (auto split: name.splits)

text \<open>\<open>Figure.is_valid_move\<close>\<close>

definition is_valid_move ::
  "figure \<Rightarrow> figure grid \<Rightarrow> int \<Rightarrow> int \<Rightarrow> int \<Rightarrow> int \<Rightarrow> bool result" where
  "is_valid_move self board start_row start_col end_row end_col =
     (if \<not> check_pos end_row end_col then Some (Inr False)
      else
        (case get_figure board end_row end_col of
           Inl e \<Rightarrow> Some (Inl e)
         | Inr target_figure \<Rightarrow>
             (if (case target_figure of None \<Rightarrow> False | Some t \<Rightarrow> color t = color self)
              then Some (Inr False)
              else
                (case get_possible_moves self board start_row start_col of
                   None \<Rightarrow> None
                 | Some (Inl e) \<Rightarrow> Some (Inl e)
                 | Some (Inr moves) \<Rightarrow>
                     (if (end_row, end_col) \<notin> set moves \<and> kind self \<noteq> Mage
                      then Some (Inr False)
                      else Some (Inr True))))))"

section \<open>Chess: the board\<close>

definition back_rank :: "color \<Rightarrow> kind \<Rightarrow> figure option list" where
  "back_rank c fourth =
     map (\<lambda>k. Some (Figure c k)) [Rook, Knight, Bishop, fourth, King, Bishop, Knight, Rook]"

definition empty_row :: "figure option list" where
  "empty_row = replicate 8 None"

text \<open>\<open>Board.initialize_board\<close> on the empty 8 x 8 grid of \<open>Board.__init__\<close>.\<close>

definition Board_initialize_board :: "figure grid" where
  "Board_initialize_board =
     [back_rank Black Queen, replicate 8 (Some (Figure Black Pawn)),
      empty_row, empty_row, empty_row, empty_row,
      replicate 8 (Some (Figure White Pawn)), back_rank White Queen]"

text \<open>\<open>NewBoard.initialize_board\<close>: Mages, Spearmen and one Demon a side.\<close>

definition NewBoard_initialize_board :: "figure grid" where
  "NewBoard_initialize_board =
     [back_rank Black Mage, replicate 8 (Some (Figure Black Spearman)),
      empty_row,
      [None, Some (Figure Black (Demon NKing)), None, None, None, None, None, None],
      [None, None, None, None, None, None, Some (Figure White (Demon NKing)), None],
      empty_row,
      replicate 8 (Some (Figure White Spearman)), back_rank White Mage]"

text \<open>
  What \<open>move_figure\<close> returns: \<open>False\<close> is \<open>Rejected\<close>, the captured figure or \<open>None\<close> is
  \<open>Moved\<close>.
\<close>

datatype 'a outcome = Rejected | Moved "'a option"

text \<open>
  \<open>Board.move_figure\<close>. The board is returned beside the value, also when the call raises,
  so that the state left behind by an exception is part of the model.
\<close>

definition move_figure ::
  "figure grid \<Rightarrow> int \<Rightarrow> int \<Rightarrow> int \<Rightarrow> int \<Rightarrow> ((error + figure outcome) \<times> figure grid) option" where
  "move_figure board start_row start_col end_row end_col =
     (case get_figure board start_row start_col of
        Inl e \<Rightarrow> Some (Inl e, board)
      | Inr None \<Rightarrow> Some (Inr Rejected, board)
      | Inr (Some figure) \<Rightarrow>
          (case is_valid_move figure board start_row start_col end_row end_col of
             None \<Rightarrow> None
           | Some (Inl e) \<Rightarrow> Some (Inl e, board)
           | Some (Inr False) \<Rightarrow> Some (Inr Rejected, board)
           | Some (Inr True) \<Rightarrow>
               (case get_figure board end_row end_col of
                  Inl e \<Rightarrow> Some (Inl e, board)
                | Inr captured_figure \<Rightarrow>
                    (case set_figure board end_row end_col (Some figure) of
                       Inl e \<Rightarrow> Some (Inl e, board)
                     | Inr board1 \<Rightarrow>
                         (case set_figure board1 start_row start_col None of
                            Inl e \<Rightarrow> Some (Inl e, board1)
                          | Inr board2 \<Rightarrow> Some (Inr (Moved captured_figure), board2))))))"

section \<open>Checkers: movement rules\<close>

datatype checker_class = Checker | KingChecker

datatype checker = Piece (piece_color: color) (piece_class: checker_class)

text \<open>The first loop of \<open>Checker.get_possible_moves\<close>: the jumps over an adjacent enemy.\<close>

fun capture_loop ::
  "checker grid \<Rightarrow> color \<Rightarrow> int \<Rightarrow> int \<Rightarrow> (int \<times> int) list \<Rightarrow> squares \<Rightarrow> error + squares" where
  "capture_loop board me start_row start_col [] moves = Inr moves"
| "capture_loop board me start_row start_col ((dr, dc) # directions) moves =
     (if check_pos (start_row + dr) (start_col + dc) then
        (case get_figure board (start_row + dr) (start_col + dc) of
           Inl e \<Rightarrow> Inl e
         | Inr None \<Rightarrow> capture_loop board me start_row start_col directions moves
         | Inr (Some position) \<Rightarrow>
             (if piece_color position \<noteq> me
                 \<and> check_pos (start_row + 2 * dr) (start_col + 2 * dc) then
                (case get_figure board (start_row + 2 * dr) (start_col + 2 * dc) of
                   Inl e \<Rightarrow> Inl e
                 | Inr None \<Rightarrow>
                     capture_loop board me start_row start_col directions
                       (moves @ [(start_row + 2 * dr, start_col + 2 * dc)])
                 | Inr (Some q) \<Rightarrow> capture_loop board me start_row start_col directions moves)
              else capture_loop board me start_row start_col directions moves))
      else capture_loop board me start_row start_col directions moves)"

text \<open>The second loop: the plain steps forward, appended without a look at the board.\<close>

fun forward_loop :: "int \<Rightarrow> int \<Rightarrow> (int \<times> int) list \<Rightarrow> squares \<Rightarrow> squares" where
  "forward_loop start_row start_col [] moves = moves"
| "forward_loop start_row start_col ((dr, dc) # rest) moves =
     (if check_pos (start_row + dr) (start_col + dc)
      then forward_loop start_row start_col rest (moves @ [(start_row + dr, start_col + dc)])
      else forward_loop start_row start_col rest moves)"

definition checker_directions :: "(int \<times> int) list" where
  "checker_directions = [(1, 1), (1, - 1), (- 1, 1), (- 1, - 1)]"

definition Checker_get_possible_moves ::
  "checker grid \<Rightarrow> color \<Rightarrow> int \<Rightarrow> int \<Rightarrow> bool \<Rightarrow> error + squares" where
  "Checker_get_possible_moves board me start_row start_col is_killer =
     (case capture_loop board me start_row start_col checker_directions [] of
        Inl e \<Rightarrow> Inl e
      | Inr moves \<Rightarrow>
          (if \<not> (is_killer \<or> moves \<noteq> []) then
             (let dir = (if me = White then - 1 else 1)
              in Inr (forward_loop start_row start_col [(dir, 1), (dir, - 1)] moves))
           else Inr moves))"

text \<open>The \<open>while\<close> loop of \<open>KingChecker.get_possible_moves\<close>.\<close>

partial_function (option) king_slide ::
  "checker grid \<Rightarrow> color \<Rightarrow> int \<Rightarrow> int \<Rightarrow> int \<Rightarrow> int \<Rightarrow> squares \<Rightarrow> (error + squares) option" where
  "king_slide board me dr dc row col moves =
     (if check_pos row col then
        (case get_figure board row col of
           Inl e \<Rightarrow> Some (Inl e)
         | Inr None \<Rightarrow> king_slide board me dr dc (row + dr) (col + dc) (moves @ [(row, col)])
         | Inr (Some piece) \<Rightarrow>
             (if piece_color piece \<noteq> me then
                (if check_pos (row + dr) (col + dc) then
                   (case get_figure board (row + dr) (col + dc) of
                      Inl e \<Rightarrow> Some (Inl e)
                    | Inr None \<Rightarrow> Some (Inr (moves @ [(row + dr, col + dc)]))
                    | Inr (Some q) \<Rightarrow> Some (Inr moves))
                 else Some (Inr moves))
              else Some (Inr moves)))
      else Some (Inr moves))"

declare king_slide.simps [code]

fun king_slide_all ::
  "checker grid \<Rightarrow> color \<Rightarrow> int \<Rightarrow> int \<Rightarrow> (int \<times> int) list \<Rightarrow> squares \<Rightarrow> squares result" where
  "king_slide_all board me start_row start_col [] moves = Some (Inr moves)"
| "king_slide_all board me start_row start_col ((dr, dc) # directions) moves =
     (case king_slide board me dr dc (start_row + dr) (start_col + dc) moves of
        None \<Rightarrow> None
      | Some (Inl e) \<Rightarrow> Some (Inl e)
      | Some (Inr moves') \<Rightarrow> king_slide_all board me start_row start_col directions moves')"

text \<open>\<open>KingChecker.get_possible_moves\<close>: the parameter \<open>is_killer\<close> is not read.\<close>

definition KingChecker_get_possible_moves ::
  "checker grid \<Rightarrow> color \<Rightarrow> int \<Rightarrow> int \<Rightarrow> bool \<Rightarrow> squares result" where
  "KingChecker_get_possible_moves board me start_row start_col is_killer =
     king_slide_all board me start_row start_col checker_directions []"

text \<open>The method call \<open>figure.get_possible_moves(board, row, col, is_killer)\<close> of checkers.py.\<close>

fun get_possible_moves_ck ::
  "checker \<Rightarrow> checker grid \<Rightarrow> int \<Rightarrow> int \<Rightarrow> bool \<Rightarrow> squares result" where
  "get_possible_moves_ck (Piece c Checker) board start_row start_col is_killer =
     Some (Checker_get_possible_moves board c start_row start_col is_killer)"
| "get_possible_moves_ck (Piece c KingChecker) board start_row start_col is_killer =
     KingChecker_get_possible_moves board c start_row start_col is_killer"

text \<open>\<open>Checker.is_valid_move\<close>, which KingChecker inherits.\<close>

definition is_valid_move_ck ::
  "checker \<Rightarrow> checker grid \<Rightarrow> int \<Rightarrow> int \<Rightarrow> int \<Rightarrow> int \<Rightarrow> bool \<Rightarrow> bool result" where
  "is_valid_move_ck self board start_row start_col end_row end_col is_killer =
     (if \<not> check_pos end_row end_col then Some (Inr False)
      else
        (case get_figure board end_row end_col of
           Inl e \<Rightarrow> Some (Inl e)
         | Inr (Some t) \<Rightarrow> Some (Inr False)
         | Inr None \<Rightarrow>
             (case get_possible_moves_ck self board start_row start_col is_killer of
                None \<Rightarrow> None
              | Some (Inl e) \<Rightarrow> Some (Inl e)
              | Some (Inr possible_moves) \<Rightarrow>
                  (if (end_row, end_col) \<notin> set possible_moves then Some (Inr False)
                   else Some (Inr True)))))"

section \<open>Checkers: the board\<close>

text \<open>\<open>CheckersBoard.initialize_board\<close> on the empty grid.\<close>

definition CheckersBoard_initialize_board :: "checker grid" where
  "CheckersBoard_initialize_board =
     map (\<lambda>row. map (\<lambda>col.
            if (row + col) mod 2 = 1 then
              (if row < 3 then Some (Piece Black Checker)
               else if row > 4 then Some (Piece White Checker)
               else None)
            else None) [0, 1, 2, 3, 4, 5, 6, 7 :: int]) [0, 1, 2, 3, 4, 5, 6, 7 :: int]"

text \<open>
  The promotion at the end of \<open>CheckersBoard.move_figure\<close>. \<open>isinstance(figure, Checker)\<close>
  holds of both classes, KingChecker being a subclass.
\<close>

definition promote ::
  "checker grid \<Rightarrow> checker \<Rightarrow> int \<Rightarrow> int \<Rightarrow> error + checker grid" where
  "promote board figure end_row end_col =
     (if piece_color figure = White \<and> end_row = 0 \<or> piece_color figure = Black \<and> end_row = 7
      then set_figure board end_row end_col (Some (Piece (piece_color figure) KingChecker))
      else Inr board)"

text \<open>\<open>CheckersBoard.move_figure\<close>\<close>

definition move_figure_ck ::
  "checker grid \<Rightarrow> int \<Rightarrow> int \<Rightarrow> int \<Rightarrow> int \<Rightarrow> bool
     \<Rightarrow> ((error + checker outcome) \<times> checker grid) option" where
  "move_figure_ck board start_row start_col end_row end_col is_killer =
     (case get_figure board start_row start_col of
        Inl e \<Rightarrow> Some (Inl e, board)
      | Inr None \<Rightarrow> Some (Inr Rejected, board)
      | Inr (Some figure) \<Rightarrow>
          (case is_valid_move_ck figure board start_row start_col end_row end_col is_killer of
             None \<Rightarrow> None
           | Some (Inl e) \<Rightarrow> Some (Inl e, board)
           | Some (Inr False) \<Rightarrow> Some (Inr Rejected, board)
           | Some (Inr True) \<Rightarrow>
               (let delta_row = end_row - start_row;
                    delta_col = end_col - start_col;
                    dr = (if delta_row > 0 then 1 else - 1);
                    dc = (if delta_col > 0 then 1 else - 1)
                in
                  (case (if \<bar>delta_row\<bar> \<ge> 2 then
                           (case get_figure board (end_row - dr) (end_col - dc) of
                              Inl e \<Rightarrow> (Inl e, board)
                            | Inr captured_figure \<Rightarrow>
                                (case set_figure board (end_row - dr) (end_col - dc) None of
                                   Inl e \<Rightarrow> (Inl e, board)
                                 | Inr board1 \<Rightarrow> (Inr captured_figure, board1)))
                         else (Inr None, board)) of
                     (Inl e, board1) \<Rightarrow> Some (Inl e, board1)
                   | (Inr captured_figure, board1) \<Rightarrow>
                       (case set_figure board1 end_row end_col (Some figure) of
                          Inl e \<Rightarrow> Some (Inl e, board1)
                        | Inr board2 \<Rightarrow>
                            (case set_figure board2 start_row start_col None of
                               Inl e \<Rightarrow> Some (Inl e, board2)
                             | Inr board3 \<Rightarrow>
                                 (case promote board3 figure end_row end_col of
                                    Inl e \<Rightarrow> Some (Inl e, board3)
                                  | Inr board4 \<Rightarrow>
                                      Some (Inr (Moved captured_figure), board4))))))))"

section \<open>The game controllers\<close>

text \<open>
  \<open>move_count\<close> starts at 1 and moves in steps of 0.5, which binary floating point
  represents exactly; it is a rational here.
\<close>

record 'a game_state =
  board :: "'a grid"
  current_turn :: color
  move_count :: rat

datatype move = Move int int int int "figure option"

record game = "figure game_state" +
  moves :: "move list"

definition other :: "color \<Rightarrow> color" where
  "other c = (if c = White then Black else White)"

text \<open>\<open>Game.__init__\<close>\<close>

definition Game_init :: "bool \<Rightarrow> game" where
  "Game_init classic =
     \<lparr>board = (if classic then Board_initialize_board else NewBoard_initialize_board),
      current_turn = White, move_count = 1, moves = []\<rparr>"

text \<open>
  One pass through the loop of \<open>Game.play\<close> reads a command: \<open>undo\<close>, or a square to
  move from together with the square to move to (typed in, or for a Mage drawn by
  \<open>randint(0, 7)\<close> twice). Parsing the text is left to the console code.
\<close>

datatype command = Undo | Select int int int int

datatype status = Running | Won color

text \<open>
  The test of \<open>Game.choose_figure\<close> on a parsed square: on the board, and holding a figure
  of the side to move. Anything else, an IndexError included, prompts again.
\<close>

definition choose_figure :: "('a, 'b) game_state_scheme \<Rightarrow> ('a \<Rightarrow> color) \<Rightarrow> int \<Rightarrow> int \<Rightarrow> bool" where
  "choose_figure g col_of start_row start_col =
     (if \<not> (0 \<le> start_row \<and> start_row < 8 \<and> 0 \<le> start_col \<and> start_col < 8) then False
      else
        (case get_figure (board g) start_row start_col of
           Inl e \<Rightarrow> False
         | Inr None \<Rightarrow> False
         | Inr (Some piece) \<Rightarrow> col_of piece = current_turn g))"

text \<open>\<open>Game.undo_move\<close>. The record is popped before the board is touched.\<close>

definition undo_move :: "game \<Rightarrow> (error + unit) \<times> game" where
  "undo_move g =
     (if moves g \<noteq> [] then
        (case last (moves g) of
           Move start_row start_col end_row end_col captured_figure \<Rightarrow>
             (let g1 = g\<lparr>moves := butlast (moves g)\<rparr>
              in case get_figure (board g1) end_row end_col of
                   Inl e \<Rightarrow> (Inl e, g1)
                 | Inr figure \<Rightarrow>
                     (case set_figure (board g1) start_row start_col figure of
                        Inl e \<Rightarrow> (Inl e, g1)
                      | Inr b1 \<Rightarrow>
                          (case set_figure b1 end_row end_col captured_figure of
                             Inl e \<Rightarrow> (Inl e, g1\<lparr>board := b1\<rparr>)
                           | Inr b2 \<Rightarrow>
                               (Inr (),
                                g1\<lparr>board := b2,
                                   current_turn := other (current_turn g1),
                                   move_count := move_count g1 - 1 / 2\<rparr>)))))
      else (Inr (), g))"

text \<open>
  \<open>figure.power = type(captured_figure).__name__\<close>. The object \<open>figure\<close> is the one that
  \<open>move_figure\<close> has just put on the square \<open>(end_row, end_col)\<close>, and no other square and
  no move record holds it, so the assignment is an update of that cell.
\<close>

definition set_power :: "figure grid \<Rightarrow> int \<Rightarrow> int \<Rightarrow> color \<Rightarrow> name \<Rightarrow> figure grid" where
  "set_power b end_row end_col c p =
     b[nat end_row := (b ! nat end_row)[nat end_col := Some (Figure c (Demon p))]]"

text \<open>
  What follows a successful \<open>move_figure\<close> in \<open>Game.play\<close>: the move is recorded, the
  counter advances, a Demon takes the power of what it captured, and the capture of a
  King ends the game before the turn is passed on.
\<close>

definition after_move ::
  "game \<Rightarrow> figure option \<Rightarrow> figure grid \<Rightarrow> int \<Rightarrow> int \<Rightarrow> int \<Rightarrow> int \<Rightarrow> figure option
     \<Rightarrow> status \<times> game" where
  "after_move g figure b' start_row start_col end_row end_col captured_figure =
     (let g1 = g\<lparr>board := b',
                 move_count := move_count g + 1 / 2,
                 moves := moves g @ [Move start_row start_col end_row end_col captured_figure]\<rparr>;
          g2 = (case (figure, captured_figure) of
                  (Some (Figure c (Demon p)), Some captured) \<Rightarrow>
                    g1\<lparr>board := set_power b' end_row end_col c (type_name (kind captured))\<rparr>
                | _ \<Rightarrow> g1)
      in case captured_figure of
           Some (Figure c King) \<Rightarrow> (Won (current_turn g), g2)
         | _ \<Rightarrow> (Running, g2\<lparr>current_turn := other (current_turn g)\<rparr>))"

text \<open>
  The body of the loop of \<open>Game.play\<close>. A figure other than a Mage has its moves computed
  for the hints before the target is asked for; a target off the board is asked for again.
\<close>

definition play_body :: "game \<Rightarrow> command \<Rightarrow> ((error + status) \<times> game) option" where
  "play_body g cmd =
     (case cmd of
        Undo \<Rightarrow>
          (case undo_move g of
             (Inl e, g') \<Rightarrow> Some (Inl e, g')
           | (Inr u, g') \<Rightarrow> Some (Inr Running, g'))
      | Select start_row start_col end_row end_col \<Rightarrow>
          (if \<not> choose_figure g color start_row start_col then Some (Inr Running, g)
           else
             (case get_figure (board g) start_row start_col of
                Inl e \<Rightarrow> Some (Inl e, g)
              | Inr figure \<Rightarrow>
                  (case (case figure of
                           None \<Rightarrow> Some (Inl AttributeError)
                         | Some f \<Rightarrow>
                             (if kind f = Mage then Some (Inr True)
                              else
                                (case get_possible_moves f (board g) start_row start_col of
                                   None \<Rightarrow> None
                                 | Some (Inl e) \<Rightarrow> Some (Inl e)
                                 | Some (Inr hints) \<Rightarrow>
                                     Some (Inr (0 \<le> end_row \<and> end_row < 8
                                                \<and> 0 \<le> end_col \<and> end_col < 8))))) of
                     None \<Rightarrow> None
                   | Some (Inl e) \<Rightarrow> Some (Inl e, g)
                   | Some (Inr False) \<Rightarrow> Some (Inr Running, g)
                   | Some (Inr True) \<Rightarrow>
                       (case move_figure (board g) start_row start_col end_row end_col of
                          None \<Rightarrow> None
                        | Some (Inl e, b') \<Rightarrow> Some (Inl e, g\<lparr>board := b'\<rparr>)
                        | Some (Inr Rejected, b') \<Rightarrow> Some (Inr Running, g\<lparr>board := b'\<rparr>)
                        | Some (Inr (Moved captured_figure), b') \<Rightarrow>
                            (case after_move g figure b' start_row start_col end_row end_col
                                    captured_figure of
                               (st, g') \<Rightarrow> Some (Inr st, g')))))))"

text \<open>\<open>Game.play\<close> on the commands typed in: the loop ends at \<open>break\<close>, or waits for input.\<close>

fun play :: "game \<Rightarrow> command list \<Rightarrow> ((error + status) \<times> game) option" where
  "play g [] = Some (Inr Running, g)"
| "play g (cmd # cmds) =
     (case play_body g cmd of
        None \<Rightarrow> None
      | Some (Inl e, g') \<Rightarrow> Some (Inl e, g')
      | Some (Inr (Won c), g') \<Rightarrow> Some (Inr (Won c), g')
      | Some (Inr Running, g') \<Rightarrow> play g' cmds)"

subsection \<open>Checkers\<close>

text \<open>
  \<open>CheckersGame.play\<close> has an outer loop, which asks for a figure, and an inner loop with
  the locals \<open>start_row\<close>, \<open>start_col\<close> and \<open>is_killer\<close>, which asks for targets while
  the figure has moves. The place the program waits at is kept beside the game.
\<close>

datatype waiting = Figure_prompt | Target_prompt int int bool

datatype token = Word_undo | Square int int

text \<open>
  The head of the inner loop: the moves of the figure on the start square are computed;
  with none, the turn passes and the inner loop is left.
\<close>

definition inner_head ::
  "checker game_state \<Rightarrow> int \<Rightarrow> int \<Rightarrow> bool \<Rightarrow> ((error + waiting) \<times> checker game_state) option" where
  "inner_head g start_row start_col is_killer =
     (case get_figure (board g) start_row start_col of
        Inl e \<Rightarrow> Some (Inl e, g)
      | Inr None \<Rightarrow> Some (Inl AttributeError, g)
      | Inr (Some figure) \<Rightarrow>
          (case get_possible_moves_ck figure (board g) start_row start_col is_killer of
             None \<Rightarrow> None
           | Some (Inl e) \<Rightarrow> Some (Inl e, g)
           | Some (Inr ms) \<Rightarrow>
               (if ms \<noteq> [] then Some (Inr (Target_prompt start_row start_col is_killer), g)
                else Some (Inr Figure_prompt,
                           g\<lparr>move_count := move_count g + 1 / 2,
                             current_turn := other (current_turn g)\<rparr>))))"

text \<open>
  One token of input. At the figure prompt the word \<open>undo\<close> is returned with no square,
  and reading the board at \<open>None\<close> raises. At the target prompt anything but a square on
  the board is asked for again.
\<close>

definition play_token ::
  "checker game_state \<Rightarrow> waiting \<Rightarrow> token \<Rightarrow> ((error + waiting) \<times> checker game_state) option" where
  "play_token g w tok =
     (case w of
        Figure_prompt \<Rightarrow>
          (case tok of
             Word_undo \<Rightarrow> Some (Inl TypeError, g)
           | Square start_row start_col \<Rightarrow>
               (if choose_figure g piece_color start_row start_col
                then inner_head g start_row start_col False
                else Some (Inr Figure_prompt, g)))
      | Target_prompt start_row start_col is_killer \<Rightarrow>
          (case tok of
             Word_undo \<Rightarrow> Some (Inr w, g)
           | Square end_row end_col \<Rightarrow>
               (if \<not> (0 \<le> end_row \<and> end_row < 8 \<and> 0 \<le> end_col \<and> end_col < 8)
                then Some (Inr w, g)
                else
                  (case move_figure_ck (board g) start_row start_col end_row end_col is_killer of
                     None \<Rightarrow> None
                   | Some (Inl e, b') \<Rightarrow> Some (Inl e, g\<lparr>board := b'\<rparr>)
                   | Some (Inr Rejected, b') \<Rightarrow>
                       inner_head (g\<lparr>board := b'\<rparr>) start_row start_col is_killer
                   | Some (Inr (Moved (Some captured)), b') \<Rightarrow>
                       inner_head (g\<lparr>board := b'\<rparr>) end_row end_col True
                   | Some (Inr (Moved None), b') \<Rightarrow>
                       Some (Inr Figure_prompt,
                             g\<lparr>board := b',
                               move_count := move_count g + 1 / 2,
                               current_turn := other (current_turn g)\<rparr>)))))"

text \<open>\<open>CheckersGame.__init__\<close>\<close>

definition CheckersGame_init :: "checker game_state" where
  "CheckersGame_init =
     \<lparr>board = CheckersBoard_initialize_board, current_turn = White, move_count = 1\<rparr>"

text \<open>\<open>CheckersGame.play\<close> on the tokens typed in.\<close>

fun play_ck ::
  "checker game_state \<Rightarrow> waiting \<Rightarrow> token list \<Rightarrow> ((error + waiting) \<times> checker game_state) option" where
  "play_ck g w [] = Some (Inr w, g)"
| "play_ck g w (tok # toks) =
     (case play_token g w tok of
        None \<Rightarrow> None
      | Some (Inl e, g') \<Rightarrow> Some (Inl e, g')
      | Some (Inr w', g') \<Rightarrow> play_ck g' w' toks)"

section \<open>Notions used in the statements\<close>

text \<open>The shape every board of the program has: eight rows of eight cells.\<close>

definition well_formed :: "'a grid \<Rightarrow> bool" where
  "well_formed b \<longleftrightarrow> length b = 8 \<and> list_all (\<lambda>r. length r = 8) b"

text \<open>The content of a square of the board, for coordinates from 0 to 7.\<close>

definition cell :: "'a grid \<Rightarrow> int \<Rightarrow> int \<Rightarrow> 'a option" where
  "cell b r c = b ! nat r ! nat c"

text \<open>The square a Python index from -8 to 7 stands for.\<close>

definition wrap :: "int \<Rightarrow> int" where
  "wrap i = (if i < 0 then i + 8 else i)"

text \<open>A step of a sliding piece: one square along a row, a column or a diagonal.\<close>

definition unit_step :: "int \<Rightarrow> int \<Rightarrow> bool" where
  "unit_step y x \<longleftrightarrow> \<bar>y\<bar> \<le> 1 \<and> \<bar>x\<bar> \<le> 1 \<and> (y \<noteq> 0 \<or> x \<noteq> 0)"

text \<open>The square \<open>j\<close> steps of \<open>(y, x)\<close> away from \<open>(row, col)\<close>.\<close>

definition ray :: "int \<Rightarrow> int \<Rightarrow> int \<Rightarrow> int \<Rightarrow> nat \<Rightarrow> int \<times> int" where
  "ray row col y x j = (row + int j * y, col + int j * x)"

definition on_board :: "int \<times> int \<Rightarrow> bool" where
  "on_board sq = check_pos (fst sq) (snd sq)"

definition occupant :: "'a grid \<Rightarrow> int \<times> int \<Rightarrow> 'a option" where
  "occupant b sq = cell b (fst sq) (snd sq)"

text \<open>A figure of colour \<open>me\<close> may land on the square: it is empty or holds an enemy.\<close>

definition open_to :: "figure grid \<Rightarrow> color \<Rightarrow> int \<times> int \<Rightarrow> bool" where
  "open_to b me sq = (case occupant b sq of None \<Rightarrow> True | Some p \<Rightarrow> color p \<noteq> me)"

text \<open>
  A figure of colour \<open>me\<close> on \<open>(r, c)\<close> slides \<open>n\<close> steps of \<open>(y, x)\<close>: the squares on the
  way are on the board and empty, the last one is on the board and open to it.
\<close>

definition slides_to :: "figure grid \<Rightarrow> color \<Rightarrow> int \<Rightarrow> int \<Rightarrow> int \<Rightarrow> int \<Rightarrow> nat \<Rightarrow> bool" where
  "slides_to b me r c y x n \<longleftrightarrow>
     1 \<le> n \<and> (\<forall>j\<in>{1..n}. on_board (ray r c y x j))
     \<and> (\<forall>j\<in>{1..<n}. occupant b (ray r c y x j) = None)
     \<and> open_to b me (ray r c y x n)"

text \<open>What the loop adds when it stops at a square: the square, if it holds an enemy.\<close>

definition stop_square :: "figure grid \<Rightarrow> color \<Rightarrow> int \<times> int \<Rightarrow> squares" where
  "stop_square b me sq =
     (if on_board sq then
        (case occupant b sq of None \<Rightarrow> [] | Some p \<Rightarrow> if color p \<noteq> me then [sq] else [])
      else [])"

text \<open>The directions a sliding figure moves in.\<close>

fun directions_of :: "kind \<Rightarrow> (int \<times> int) list" where
  "directions_of Rook = rook_directions"
| "directions_of Bishop = bishop_directions"
| "directions_of Queen = rook_directions @ bishop_directions"
| "directions_of k = []"

text \<open>The squares a figure of colour \<open>me\<close> on \<open>(r, c)\<close> slides to in the direction \<open>d\<close>.\<close>

definition slide_targets :: "figure grid \<Rightarrow> color \<Rightarrow> int \<Rightarrow> int \<Rightarrow> int \<times> int \<Rightarrow> (int \<times> int) set" where
  "slide_targets b me r c d =
     {sq. \<exists>n. slides_to b me r c (fst d) (snd d) n \<and> sq = ray r c (fst d) (snd d) n}"

text \<open>The square holds a piece of the other colour.\<close>

definition enemy_at :: "figure grid \<Rightarrow> color \<Rightarrow> int \<times> int \<Rightarrow> bool" where
  "enemy_at b me sq = (case occupant b sq of None \<Rightarrow> False | Some p \<Rightarrow> color p \<noteq> me)"

text \<open>The square \<open>(r, c)\<close> lies more than two squares off the board.\<close>

definition far_off :: "int \<Rightarrow> int \<Rightarrow> bool" where
  "far_off r c \<longleftrightarrow> r < - 2 \<or> 9 < r \<or> c < - 2 \<or> 9 < c"

text \<open>A Python index the lists of the board accept.\<close>

definition subscriptable :: "int \<Rightarrow> bool" where
  "subscriptable i \<longleftrightarrow> - 8 \<le> i \<and> i < 8"

text \<open>The board with the content of one square replaced, for coordinates from 0 to 7.\<close>

definition put :: "'a grid \<Rightarrow> int \<Rightarrow> int \<Rightarrow> 'a option \<Rightarrow> 'a grid" where
  "put b r c v = b[nat r := (b ! nat r)[nat c := v]]"

text \<open>
  Chess: the mover stands on the target square and its origin is empty; every other
  square is as before.
\<close>

definition relocate :: "'a grid \<Rightarrow> int \<Rightarrow> int \<Rightarrow> int \<Rightarrow> int \<Rightarrow> 'a grid" where
  "relocate b start_row start_col end_row end_col =
     put (put b end_row end_col (cell b (wrap start_row) (wrap start_col)))
       (wrap start_row) (wrap start_col) None"

text \<open>
  The square \<open>sq\<close> lies \<open>n\<close> steps from \<open>(r, c)\<close> along the diagonal \<open>d\<close>, and the squares
  passed on the way are on the board.
\<close>

definition along :: "int \<Rightarrow> int \<Rightarrow> int \<times> int \<Rightarrow> nat \<Rightarrow> int \<times> int \<Rightarrow> bool" where
  "along r c d n sq \<longleftrightarrow>
     d \<in> set checker_directions \<and> 1 \<le> n \<and> sq = ray r c (fst d) (snd d) n
     \<and> on_board sq \<and> (\<forall>j\<in>{1..<n}. on_board (ray r c (fst d) (snd d) j))"

text \<open>Checkers: the square holds a piece of the other colour.\<close>

definition enemy_ck :: "checker grid \<Rightarrow> color \<Rightarrow> int \<times> int \<Rightarrow> bool" where
  "enemy_ck b me sq = (case occupant b sq of None \<Rightarrow> False | Some p \<Rightarrow> piece_color p \<noteq> me)"

text \<open>
  A piece of colour \<open>me\<close> on \<open>(r, c)\<close> can jump in the direction \<open>d\<close>: an enemy stands on
  the next square and the square behind it is on the board and empty.
\<close>

definition can_capture :: "checker grid \<Rightarrow> color \<Rightarrow> int \<Rightarrow> int \<Rightarrow> int \<times> int \<Rightarrow> bool" where
  "can_capture b me r c d \<longleftrightarrow>
     on_board (ray r c (fst d) (snd d) 1) \<and> enemy_ck b me (ray r c (fst d) (snd d) 1)
     \<and> on_board (ray r c (fst d) (snd d) 2) \<and> occupant b (ray r c (fst d) (snd d) 2) = None"

text \<open>The landing squares of the jumps of a Checker.\<close>

definition capture_squares :: "checker grid \<Rightarrow> color \<Rightarrow> int \<Rightarrow> int \<Rightarrow> squares" where
  "capture_squares b me r c =
     map (\<lambda>d. ray r c (fst d) (snd d) 2) (filter (can_capture b me r c) checker_directions)"

text \<open>What the loop of a KingChecker adds when it stops at the square \<open>sq\<close>, before \<open>next\<close>.\<close>

definition jump_square :: "checker grid \<Rightarrow> color \<Rightarrow> int \<times> int \<Rightarrow> int \<times> int \<Rightarrow> squares" where
  "jump_square b me sq next =
     (if on_board sq \<and> enemy_ck b me sq \<and> on_board next \<and> occupant b next = None
      then [next] else [])"

text \<open>
  Checkers: a piece that has reached the farthest row for its colour is replaced on its
  square by a KingChecker of the same colour.
\<close>

definition crown :: "checker grid \<Rightarrow> checker \<Rightarrow> int \<Rightarrow> int \<Rightarrow> checker grid" where
  "crown b f end_row end_col =
     (if piece_color f = White \<and> end_row = 0 \<or> piece_color f = Black \<and> end_row = 7
      then put b end_row end_col (Some (Piece (piece_color f) KingChecker))
      else b)"

text \<open>The square before the landing square of a move.\<close>

definition before_landing :: "int \<Rightarrow> int \<Rightarrow> int \<Rightarrow> int \<Rightarrow> int \<times> int" where
  "before_landing start_row start_col end_row end_col =
     (end_row - sgn (end_row - start_row), end_col - sgn (end_col - start_col))"

text \<open>What a move over two rows or more captures.\<close>

definition captured_ck :: "checker grid \<Rightarrow> int \<Rightarrow> int \<Rightarrow> int \<Rightarrow> int \<Rightarrow> checker option" where
  "captured_ck b start_row start_col end_row end_col =
     (if 2 \<le> \<bar>end_row - start_row\<bar>
      then occupant b (before_landing start_row start_col end_row end_col) else None)"

text \<open>
  Checkers, a committed move: the square jumped over is emptied when the move spans two
  rows or more, the mover is relocated, and then it is crowned if it has reached the
  farthest row.
\<close>

definition relocate_ck :: "checker grid \<Rightarrow> int \<Rightarrow> int \<Rightarrow> int \<Rightarrow> int \<Rightarrow> checker grid" where
  "relocate_ck b start_row start_col end_row end_col =
     (let over = before_landing start_row start_col end_row end_col;
          b1 = (if 2 \<le> \<bar>end_row - start_row\<bar> then put b (fst over) (snd over) None else b);
          b2 = put (put b1 end_row end_col (cell b (wrap start_row) (wrap start_col)))
                 (wrap start_row) (wrap start_col) None
      in case cell b (wrap start_row) (wrap start_col) of
           None \<Rightarrow> b2
         | Some f \<Rightarrow> crown b2 f end_row end_col)"

text \<open>The square holds a piece of the colour \<open>me\<close>.\<close>

definition own_at :: "figure grid \<Rightarrow> color \<Rightarrow> int \<times> int \<Rightarrow> bool" where
  "own_at b me sq = (case occupant b sq of None \<Rightarrow> False | Some p \<Rightarrow> color p = me)"

text \<open>
  The special variant after the four opening moves g4-g5, a7-a6, g5-g6, a6-a5: the white
  Demon stands on (2, 6), below the black Spearman on (1, 6), and has captured nothing.
\<close>

definition demon_position :: game where
  "demon_position =
     \<lparr>board =
        [back_rank Black Mage,
         [None, Some (Figure Black Spearman), Some (Figure Black Spearman),
          Some (Figure Black Spearman), Some (Figure Black Spearman),
          Some (Figure Black Spearman), Some (Figure Black Spearman),
          Some (Figure Black Spearman)],
         [None, None, None, None, None, None, Some (Figure White (Demon NKing)), None],
         [Some (Figure Black Spearman), Some (Figure Black (Demon NKing)),
          None, None, None, None, None, None],
         empty_row, empty_row,
         replicate 8 (Some (Figure White Spearman)), back_rank White Mage],
      current_turn = White, move_count = 3,
      moves = [Move 4 6 3 6 None, Move 1 0 2 0 None, Move 3 6 2 6 None, Move 2 0 3 0 None]\<rparr>"

text \<open>
  A position of checkers with White to move: a white KingChecker on (5, 4), black Checkers
  on (4, 3) and (2, 1), every other square empty. All three pieces are on dark squares.
\<close>

definition king_position :: "checker game_state" where
  "king_position =
     \<lparr>board =
        [replicate 8 None, replicate 8 None,
         [None, Some (Piece Black Checker), None, None, None, None, None, None],
         replicate 8 None,
         [None, None, None, Some (Piece Black Checker), None, None, None, None],
         [None, None, None, None, Some (Piece White KingChecker), None, None, None],
         replicate 8 None, replicate 8 None],
      current_turn = White, move_count = 20\<rparr>"

text \<open>
  The classic game after 1. e4 f6 2. Qh5 a6: the white Queen on (3, 7) looks along an
  empty diagonal at the black King on (0, 4), and White is to move.
\<close>

definition mate_position :: game where
  "mate_position =
     \<lparr>board =
        [back_rank Black Queen,
         [None, Some (Figure Black Pawn), Some (Figure Black Pawn), Some (Figure Black Pawn),
          Some (Figure Black Pawn), None, Some (Figure Black Pawn), Some (Figure Black Pawn)],
         [Some (Figure Black Pawn), None, None, None, None, Some (Figure Black Pawn), None, None],
         [None, None, None, None, None, None, None, Some (Figure White Queen)],
         [None, None, None, None, Some (Figure White Pawn), None, None, None],
         empty_row,
         [Some (Figure White Pawn), Some (Figure White Pawn), Some (Figure White Pawn),
          Some (Figure White Pawn), None, Some (Figure White Pawn), Some (Figure White Pawn),
          Some (Figure White Pawn)],
         [Some (Figure White Rook), Some (Figure White Knight), Some (Figure White Bishop),
          None, Some (Figure White King), Some (Figure White Bishop),
          Some (Figure White Knight), Some (Figure White Rook)]],
      current_turn = White, move_count = 3,
      moves = [Move 6 4 4 4 None, Move 1 5 2 5 None, Move 7 3 3 7 None, Move 1 0 2 0 None]\<rparr>"

text \<open>Every piece of the board stands on a dark square: row plus column is odd.\<close>

definition dark :: "'a grid \<Rightarrow> bool" where
  "dark b \<longleftrightarrow>
     list_all (\<lambda>r. list_all (\<lambda>c. cell b r c = None \<or> (r + c) mod 2 = 1)
                       [0, 1, 2, 3, 4, 5, 6, 7 :: int])
       [0, 1, 2, 3, 4, 5, 6, 7 :: int]"

text \<open>
  The boards of checkers that can arise: the opening position, and whatever a call of
  \<open>CheckersBoard.move_figure\<close> that reports a move leaves behind, with any arguments.
\<close>

inductive reachable_ck :: "checker grid \<Rightarrow> bool" where
  start: "reachable_ck CheckersBoard_initialize_board"
| move: "reachable_ck b \<Longrightarrow>
         move_figure_ck b start_row start_col end_row end_col is_killer
           = Some (Inr (Moved captured_figure), b') \<Longrightarrow>
         reachable_ck b'"

section \<open>Reading and writing a well-formed board\<close>

lemma well_formed_row: "well_formed b \<Longrightarrow> 0 \<le> r \<Longrightarrow> r < 8 \<Longrightarrow> length (b ! nat r) = 8"
  by (simp add: well_formed_def list_all_length)

lemma getitem_in_range: "0 \<le> i \<Longrightarrow> i < int (length xs) \<Longrightarrow> getitem xs i = Inr (xs ! nat i)"
  by (simp add: getitem_def subscript_def)

lemma get_figure_on_board:
  "well_formed b \<Longrightarrow> check_pos r c \<Longrightarrow> get_figure b r c = Inr (cell b r c)"
  using well_formed_row[of b r]
  by (simp add: get_figure_def check_pos_def cell_def getitem_in_range well_formed_def)

section \<open>The Mage\<close>

text \<open>
  Claim C2, as the code has it. On an 8 x 8 board \<open>is_valid_move\<close> accepts a Mage's move
  exactly when the target is on the board and holds no figure of the Mage's own colour:
  only the test against the list of possible moves is skipped for a Mage, the two tests
  before it are not. The origin plays no part.
\<close>

theorem Mage_is_valid_move:
  assumes "well_formed b"
  shows "is_valid_move (Figure c Mage) b start_row start_col end_row end_col =
           Some (Inr (check_pos end_row end_col
                      \<and> (case cell b end_row end_col of None \<Rightarrow> True | Some t \<Rightarrow> color t \<noteq> c)))"
  using assms
  by (simp add: is_valid_move_def get_figure_on_board split: option.splits)

theorem Mage_is_valid_move_witness:
  "well_formed NewBoard_initialize_board
   \<and> is_valid_move (Figure White Mage) NewBoard_initialize_board 7 3 0 4 = Some (Inr True)"
  using Mage_is_valid_move [of NewBoard_initialize_board White 7 3 0 4]
  by (simp add: well_formed_def NewBoard_initialize_board_def back_rank_def empty_row_def
        check_pos_def cell_def)

text \<open>
  In the opening position of the special variant the white Mage on (7, 3) may not move
  to (7, 4), where the white King stands.
\<close>

theorem Mage_own_colour_counterexample:
  "is_valid_move (Figure White Mage) NewBoard_initialize_board 7 3 7 4 = Some (Inr False)"
  by code_simp

section \<open>The sliding loop\<close>

lemma slide_off_board:
  "\<not> check_pos row col \<Longrightarrow> slide b me y x row col acc = Some (Inr acc)"
  by (subst slide.simps) simp

lemma slide_empty:
  "well_formed b \<Longrightarrow> check_pos row col \<Longrightarrow> cell b row col = None \<Longrightarrow>
   slide b me y x row col acc = slide b me y x (row + y) (col + x) (acc @ [(row, col)])"
  by (subst slide.simps) (simp add: get_figure_on_board)

lemma slide_blocked:
  "well_formed b \<Longrightarrow> check_pos row col \<Longrightarrow> cell b row col = Some p \<Longrightarrow>
   slide b me y x row col acc =
     Some (Inr (if color p \<noteq> me then acc @ [(row, col)] else acc))"
  by (subst slide.simps) (simp add: get_figure_on_board)

text \<open>While the squares ahead are on the board and empty, the loop collects them.\<close>

lemma slide_unroll:
  assumes "well_formed b"
    and "\<forall>j<k. check_pos (row + int j * y) (col + int j * x)
              \<and> cell b (row + int j * y) (col + int j * x) = None"
  shows "slide b me y x row col acc =
         slide b me y x (row + int k * y) (col + int k * x) (acc @ map (ray row col y x) [0..<k])"
  using assms(2)
proof (induction k)
  case 0
  then show ?case by simp
next
  case (Suc k)
  then have sq: "check_pos (row + int k * y) (col + int k * x)"
       "cell b (row + int k * y) (col + int k * x) = None"
    by auto
  have "slide b me y x row col acc =
        slide b me y x (row + int k * y) (col + int k * x) (acc @ map (ray row col y x) [0..<k])"
    using Suc by simp
  also have "\<dots> = slide b me y x (row + int k * y + y) (col + int k * x + x)
       ((acc @ map (ray row col y x) [0..<k]) @ [(row + int k * y, col + int k * x)])"
    by (rule slide_empty[OF assms(1) sq])
  finally show ?case
    by (simp add: ray_def[abs_def] algebra_simps)
qed

lemma leaves_board:
  assumes "unit_step y x"
  shows "\<not> check_pos row col \<or> \<not> check_pos (row + 8 * y) (col + 8 * x)"
  using assms by (auto simp: unit_step_def check_pos_def)

text \<open>Within eight steps a ray reaches a square that is off the board or occupied.\<close>

lemma first_stop:
  assumes "unit_step y x"
  shows "\<exists>k\<le>8. (\<forall>j<k. check_pos (row + int j * y) (col + int j * x)
                      \<and> cell b (row + int j * y) (col + int j * x) = None)
        \<and> \<not> (check_pos (row + int k * y) (col + int k * x)
                      \<and> cell b (row + int k * y) (col + int k * x) = None)"
proof -
  let ?go = "\<lambda>j. check_pos (row + int j * y) (col + int j * x)
                      \<and> cell b (row + int j * y) (col + int j * x) = None"
  have "\<not> ?go 0 \<or> \<not> ?go 8"
    using leaves_board[OF assms, of row col] by auto
  then have "\<exists>m\<le>8. \<not> ?go m" by (metis le_refl zero_le)
  then obtain m where m: "\<not> ?go m" "m \<le> 8" by blast
  define k where "k = (LEAST j. \<not> ?go j)"
  have "\<not> ?go k" unfolding k_def by (rule LeastI[of "\<lambda>j. \<not> ?go j", OF m(1)])
  moreover have "k \<le> m" unfolding k_def by (rule Least_le[of "\<lambda>j. \<not> ?go j", OF m(1)])
  moreover have "\<forall>j<k. ?go j"
    using not_less_Least[of _ "\<lambda>j. \<not> ?go j"] unfolding k_def by blast
  ultimately show ?thesis using m(2) by (intro exI[of _ k]) auto
qed

text \<open>The loop returns: the empty squares up to the first stop, then the stop square.\<close>

lemma slide_run:
  assumes "well_formed b" and "unit_step y x"
  shows "\<exists>k\<le>8. (\<forall>j<k. on_board (ray row col y x j) \<and> occupant b (ray row col y x j) = None)
          \<and> \<not> (on_board (ray row col y x k) \<and> occupant b (ray row col y x k) = None)
          \<and> slide b me y x row col acc =
              Some (Inr (acc @ map (ray row col y x) [0..<k] @ stop_square b me (ray row col y x k)))"
proof -
  obtain k where k: "k \<le> 8"
      "\<forall>j<k. check_pos (row + int j * y) (col + int j * x)
                      \<and> cell b (row + int j * y) (col + int j * x) = None"
      "\<not> (check_pos (row + int k * y) (col + int k * x)
                      \<and> cell b (row + int k * y) (col + int k * x) = None)"
    using first_stop[OF assms(2), of row col b] by blast
  have run: "slide b me y x row col acc =
         slide b me y x (row + int k * y) (col + int k * x) (acc @ map (ray row col y x) [0..<k])"
    by (rule slide_unroll[OF assms(1) k(2)])
  have stop: "slide b me y x (row + int k * y) (col + int k * x) (acc @ map (ray row col y x) [0..<k])
      = Some (Inr ((acc @ map (ray row col y x) [0..<k]) @ stop_square b me (ray row col y x k)))"
  proof (cases "check_pos (row + int k * y) (col + int k * x)")
    case False
    then show ?thesis
      by (simp add: slide_off_board stop_square_def on_board_def ray_def)
  next
    case True
    with k(3) obtain p where p: "cell b (row + int k * y) (col + int k * x) = Some p" by auto
    show ?thesis
      using True p
      by (simp add: slide_blocked[OF assms(1) True p] stop_square_def on_board_def ray_def occupant_def)
  qed
  show ?thesis
    using k run stop by (intro exI[of _ k]) (simp add: on_board_def occupant_def ray_def)
qed

lemma ray_shift: "ray (r + y) (c + x) y x j = ray r c y x (Suc j)"
  by (simp add: ray_def algebra_simps)

text \<open>The stop square is added when it is on the board and holds an enemy.\<close>

lemma stop_square_mem:
  "sq \<in> set (stop_square b me q) \<longleftrightarrow>
     sq = q \<and> on_board q \<and> (\<exists>p. occupant b q = Some p \<and> color p \<noteq> me)"
proof (cases "on_board q")
  case False
  then show ?thesis by (simp add: stop_square_def)
next
  case True
  show ?thesis
  proof (cases "occupant b q")
    case None
    then show ?thesis using True by (simp add: stop_square_def)
  next
    case (Some p)
    show ?thesis
    proof (cases "color p = me")
      case True
      then show ?thesis using Some \<open>on_board q\<close> by (simp add: stop_square_def)
    next
      case False
      then show ?thesis using Some \<open>on_board q\<close> by (simp add: stop_square_def)
    qed
  qed
qed

text \<open>The squares the loop adds for one direction are those the figure slides to.\<close>

lemma slide_from_origin:
  assumes "well_formed b" and "unit_step y x"
  shows "\<exists>ms. slide b me y x (r + y) (c + x) acc = Some (Inr (acc @ ms))
          \<and> (\<forall>sq. sq \<in> set ms \<longleftrightarrow> (\<exists>n. slides_to b me r c y x n \<and> sq = ray r c y x n))"
proof -
  from slide_run[OF assms, of "r + y" "c + x" me acc]
  obtain k where k0:
      "\<forall>j<k. on_board (ray r c y x (Suc j)) \<and> occupant b (ray r c y x (Suc j)) = None"
      "\<not> (on_board (ray r c y x (Suc k)) \<and> occupant b (ray r c y x (Suc k)) = None)"
      "slide b me y x (r + y) (c + x) acc =
         Some (Inr (acc @ map (ray (r + y) (c + x) y x) [0..<k]
                     @ stop_square b me (ray r c y x (Suc k))))"
    unfolding ray_shift by blast
  have go: "on_board (ray r c y x i) \<and> occupant b (ray r c y x i) = None"
    if "1 \<le> i" "i \<le> k" for i
  proof -
    have "i = Suc (i - 1)" "i - 1 < k" using that by linarith+
    then show ?thesis using k0(1) by metis
  qed
  let ?ms = "map (ray (r + y) (c + x) y x) [0..<k] @ stop_square b me (ray r c y x (Suc k))"
  have set_ms: "set ?ms = ray r c y x ` {1..k} \<union> set (stop_square b me (ray r c y x (Suc k)))"
  proof -
    have "ray r c y x ` {1..k} = ray r c y x ` (Suc ` {0..<k})"
      by (simp add: image_Suc_atLeastLessThan atLeastLessThanSuc_atLeastAtMost)
    also have "\<dots> = (\<lambda>j. ray r c y x (Suc j)) ` {0..<k}"
      by (rule image_image)
    also have "\<dots> = ray (r + y) (c + x) y x ` {0..<k}"
      by (simp add: ray_shift)
    finally have "ray (r + y) (c + x) y x ` {0..<k} = ray r c y x ` {1..k}" by simp
    then show ?thesis by simp
  qed
  have "sq \<in> set ?ms \<longleftrightarrow> (\<exists>n. slides_to b me r c y x n \<and> sq = ray r c y x n)" for sq
  proof
    assume "sq \<in> set ?ms"
    then consider j where "1 \<le> j" "j \<le> k" "sq = ray r c y x j"
      | "sq \<in> set (stop_square b me (ray r c y x (Suc k)))"
      unfolding set_ms by auto
    then show "\<exists>n. slides_to b me r c y x n \<and> sq = ray r c y x n"
    proof cases
      case 1
      have "slides_to b me r c y x j"
        unfolding slides_to_def open_to_def
      proof (intro conjI ballI)
        show "1 \<le> j" by (rule 1(1))
      next
        fix i assume "i \<in> {1..j}"
        then have "1 \<le> i" "i \<le> k" using 1(2) by auto
        then show "on_board (ray r c y x i)" using go by blast
      next
        fix i assume "i \<in> {1..<j}"
        then have "1 \<le> i" "i \<le> k" using 1(2) by auto
        then show "occupant b (ray r c y x i) = None" using go by blast
      next
        have "occupant b (ray r c y x j) = None" using go[OF 1(1,2)] by blast
        then show "case occupant b (ray r c y x j) of None \<Rightarrow> True | Some p \<Rightarrow> color p \<noteq> me"
          by simp
      qed
      then show ?thesis using 1(3) by blast
    next
      case 2
      have sq1: "sq = ray r c y x (Suc k)" and sq2: "on_board sq"
        and sq3: "open_to b me sq"
        using 2 unfolding stop_square_mem open_to_def by auto
      note sq = sq1 sq2 sq3
      have "slides_to b me r c y x (Suc k)"
        unfolding slides_to_def
      proof (intro conjI ballI)
        show "1 \<le> Suc k" by simp
      next
        fix i assume i: "i \<in> {1..Suc k}"
        show "on_board (ray r c y x i)"
        proof (cases "i = Suc k")
          case True then show ?thesis using sq by simp
        next
          case False
          then have "1 \<le> i" "i \<le> k" using i by auto
          then show ?thesis using go by blast
        qed
      next
        fix i assume "i \<in> {1..<Suc k}"
        then have "1 \<le> i" "i \<le> k" by auto
        then show "occupant b (ray r c y x i) = None" using go by blast
      next
        show "open_to b me (ray r c y x (Suc k))" using sq by simp
      qed
      then show ?thesis using sq(1) by blast
    qed
  next
    assume "\<exists>n. slides_to b me r c y x n \<and> sq = ray r c y x n"
    then obtain n where n: "slides_to b me r c y x n" "sq = ray r c y x n" by blast
    have n1: "1 \<le> n" using n(1) unfolding slides_to_def by blast
    have nb: "on_board (ray r c y x n)" using n(1) n1 unfolding slides_to_def by auto
    have nk: "n \<le> Suc k"
    proof (rule ccontr)
      assume "\<not> n \<le> Suc k"
      then have "Suc k \<in> {1..<n}" "Suc k \<in> {1..n}" by auto
      then have "on_board (ray r c y x (Suc k)) \<and> occupant b (ray r c y x (Suc k)) = None"
        using n(1) unfolding slides_to_def by blast
      then show False using k0(2) by simp
    qed
    show "sq \<in> set ?ms"
    proof (cases "n = Suc k")
      case False
      then have "n \<in> {1..k}" using n1 nk by auto
      then show ?thesis unfolding set_ms using n(2) by blast
    next
      case True
      have "open_to b me sq" using n unfolding slides_to_def by simp
      moreover have "occupant b sq \<noteq> None" using k0(2) nb n(2) True by simp
      ultimately have "sq \<in> set (stop_square b me sq)"
        using nb n(2) unfolding stop_square_mem open_to_def by (cases "occupant b sq") auto
      then show ?thesis unfolding set_ms using n(2) True by simp
    qed
  qed
  then show ?thesis using k0(3) by (intro exI[of _ ?ms]) simp
qed

lemma slide_targets_run:
  assumes "well_formed b" and "unit_step y x"
  shows "\<exists>ms. slide b me y x (r + y) (c + x) acc = Some (Inr (acc @ ms))
          \<and> set ms = slide_targets b me r c (y, x)"
proof -
  obtain ms where ms: "slide b me y x (r + y) (c + x) acc = Some (Inr (acc @ ms))"
      "\<forall>sq. sq \<in> set ms \<longleftrightarrow> (\<exists>n. slides_to b me r c y x n \<and> sq = ray r c y x n)"
    using slide_from_origin[OF assms, of me r c acc] by blast
  have "set ms = slide_targets b me r c (y, x)"
  proof (intro set_eqI)
    fix sq
    show "sq \<in> set ms \<longleftrightarrow> sq \<in> slide_targets b me r c (y, x)"
      using ms(2)[rule_format, of sq] by (simp add: slide_targets_def)
  qed
  then show ?thesis using ms(1) by blast
qed

text \<open>The loop over the directions collects what each direction adds.\<close>

lemma slide_all_squares:
  assumes "well_formed b" and "\<forall>d\<in>set ds. unit_step (fst d) (snd d)"
  shows "\<exists>ms. slide_all b me r c ds acc = Some (Inr (acc @ ms))
          \<and> set ms = (\<Union>d\<in>set ds. slide_targets b me r c d)"
  using assms(2)
proof (induction ds arbitrary: acc)
  case Nil
  then show ?case by simp
next
  case (Cons d ds)
  obtain y x where d: "d = (y, x)" by (cases d)
  have u: "unit_step y x" using Cons.prems d by simp
  obtain ms1 where ms1: "slide b me y x (r + y) (c + x) acc = Some (Inr (acc @ ms1))"
      "set ms1 = slide_targets b me r c (y, x)"
    using slide_targets_run[OF assms(1) u, of me r c acc] by blast
  have "\<forall>d\<in>set ds. unit_step (fst d) (snd d)" using Cons.prems by simp
  from Cons.IH[OF this, of "acc @ ms1"]
  obtain ms2 where ms2: "slide_all b me r c ds (acc @ ms1) = Some (Inr ((acc @ ms1) @ ms2))"
      "set ms2 = (\<Union>d\<in>set ds. slide_targets b me r c d)"
    by blast
  have run: "slide_all b me r c (d # ds) acc = Some (Inr (acc @ ms1 @ ms2))"
    using ms1(1) ms2(1) d by simp
  have mem: "set (ms1 @ ms2) = (\<Union>d\<in>set (d # ds). slide_targets b me r c d)"
    using ms1(2) ms2(2) d by simp
  show ?case
    using run mem by blast
qed

lemma unit_rook_directions: "\<forall>d\<in>set rook_directions. unit_step (fst d) (snd d)"
  by (simp add: rook_directions_def unit_step_def)

lemma unit_bishop_directions: "\<forall>d\<in>set bishop_directions. unit_step (fst d) (snd d)"
  by (simp add: bishop_directions_def unit_step_def)

text \<open>Rook, Bishop and Queen return, and return the squares they slide to.\<close>

lemma slider_squares:
  assumes "well_formed b" and "k = Rook \<or> k = Bishop \<or> k = Queen"
  shows "\<exists>ms. get_possible_moves (Figure me k) b r c = Some (Inr ms)
          \<and> set ms = (\<Union>d\<in>set (directions_of k). slide_targets b me r c d)"
proof -
  obtain rs where rs: "slide_all b me r c rook_directions [] = Some (Inr rs)"
      "set rs = (\<Union>d\<in>set rook_directions. slide_targets b me r c d)"
    using slide_all_squares[OF assms(1) unit_rook_directions, of me r c "[]"] by auto
  obtain bs where bs: "slide_all b me r c bishop_directions [] = Some (Inr bs)"
      "set bs = (\<Union>d\<in>set bishop_directions. slide_targets b me r c d)"
    using slide_all_squares[OF assms(1) unit_bishop_directions, of me r c "[]"] by auto
  from assms(2) show ?thesis
  proof (elim disjE)
    assume "k = Rook"
    then show ?thesis using rs by (simp add: Rook_get_possible_moves_def)
  next
    assume "k = Bishop"
    then show ?thesis using bs by (simp add: Bishop_get_possible_moves_def)
  next
    assume k: "k = Queen"
    have "get_possible_moves (Figure me k) b r c = Some (Inr (rs @ bs))"
      using rs(1) bs(1) k
      by (simp add: Queen_get_possible_moves_def Rook_get_possible_moves_def
            Bishop_get_possible_moves_def)
    moreover have "set (rs @ bs) = (\<Union>d\<in>set (directions_of k). slide_targets b me r c d)"
      using rs(2) bs(2) k by simp
    ultimately show ?thesis by blast
  qed
qed

lemma unit_values: "unit_step y x \<Longrightarrow> (y = - 1 \<or> y = 0 \<or> y = 1) \<and> (x = - 1 \<or> x = 0 \<or> x = 1)"
  unfolding unit_step_def by auto

text \<open>Two rays from one square meet at no square: the square fixes direction and distance.\<close>

lemma ray_inject:
  assumes "unit_step y x" and "unit_step y' x'" and "1 \<le> n" and "1 \<le> n'"
    and "ray r c y x n = ray r c y' x' n'"
  shows "y = y' \<and> x = x' \<and> n = n'"
proof -
  have e: "int n * y = int n' * y'" "int n * x = int n' * x'"
    using assms(5) by (auto simp: ray_def)
  have v: "y = - 1 \<or> y = 0 \<or> y = 1" "x = - 1 \<or> x = 0 \<or> x = 1"
       "y' = - 1 \<or> y' = 0 \<or> y' = 1" "x' = - 1 \<or> x' = 0 \<or> x' = 1"
    using unit_values[OF assms(1)] unit_values[OF assms(2)] by auto
  have nz: "y \<noteq> 0 \<or> x \<noteq> 0" "y' \<noteq> 0 \<or> x' \<noteq> 0"
    using assms(1,2) by (auto simp: unit_step_def)
  have pos: "0 < int n" "0 < int n'" using assms(3,4) by auto
  show ?thesis
    using e v nz pos by (elim disjE) simp_all
qed

text \<open>Between two squares of the board a ray does not leave the board.\<close>

lemma between_bounds:
  fixes r :: int
  assumes "0 \<le> r" "r < 8" "0 \<le> r + int n * y" "r + int n * y < 8" "j \<le> n"
  shows "0 \<le> r + int j * y \<and> r + int j * y < 8"
proof (cases "0 \<le> y")
  case True
  then have "int j * y \<le> int n * y" "0 \<le> int j * y"
    using assms(5) by (auto intro: mult_right_mono)
  then show ?thesis using assms by linarith
next
  case False
  then have "int n * y \<le> int j * y" "int j * y \<le> 0"
    using assms(5) by (auto intro: mult_right_mono_neg simp: mult_le_0_iff)
  then show ?thesis using assms by linarith
qed

lemma ray_between:
  assumes "check_pos r c" and "on_board (ray r c y x n)" and "j \<le> n"
  shows "on_board (ray r c y x j)"
  using between_bounds[of r n y j] between_bounds[of c n x j] assms
  by (simp add: on_board_def ray_def check_pos_def)

lemma unit_directions_of: "d \<in> set (directions_of k) \<Longrightarrow> unit_step (fst d) (snd d)"
  by (cases k) (auto simp: rook_directions_def bishop_directions_def unit_step_def)

section \<open>Rook, Bishop and Queen stop at the first piece\<close>

text \<open>The statement for a direction taken from the tables of the code.\<close>

lemma slide_stops_in_table_direction:
  assumes "well_formed b" and "check_pos r c"
    and "k = Rook \<or> k = Bishop \<or> k = Queen"
    and "(y, x) \<in> set (directions_of k)"
    and "1 \<le> n" and "on_board (ray r c y x n)"
    and "occupant b (ray r c y x n) = Some p"
    and "\<forall>j\<in>{1..<n}. occupant b (ray r c y x j) = None"
  shows "\<exists>ms. get_possible_moves (Figure me k) b r c = Some (Inr ms)
           \<and> (\<forall>m>n. ray r c y x m \<notin> set ms)
           \<and> (ray r c y x n \<in> set ms \<longleftrightarrow> color p \<noteq> me)"
proof -
  obtain ms where ms: "get_possible_moves (Figure me k) b r c = Some (Inr ms)"
      "set ms = (\<Union>d\<in>set (directions_of k). slide_targets b me r c d)"
    using slider_squares[OF assms(1,3), of me r c] by meson
  have u: "unit_step y x" using unit_directions_of[OF assms(4)] by simp
  have mem: "ray r c y x m \<in> set ms \<longleftrightarrow> slides_to b me r c y x m" if "1 \<le> m" for m
  proof
    assume "ray r c y x m \<in> set ms"
    then obtain d' n' where d': "d' \<in> set (directions_of k)"
        "slides_to b me r c (fst d') (snd d') n'"
        "ray r c y x m = ray r c (fst d') (snd d') n'"
      unfolding ms(2) slide_targets_def by blast
    have "1 \<le> n'" using d'(2) unfolding slides_to_def by blast
    then have "y = fst d' \<and> x = snd d' \<and> m = n'"
      using ray_inject[OF u unit_directions_of[OF d'(1)] that _ d'(3)] by blast
    then show "slides_to b me r c y x m" using d'(2) by simp
  next
    assume "slides_to b me r c y x m"
    then have "ray r c y x m \<in> slide_targets b me r c (y, x)"
      unfolding slide_targets_def by auto
    then show "ray r c y x m \<in> set ms"
      unfolding ms(2) using assms(4) by blast
  qed
  have beyond: "ray r c y x m \<notin> set ms" if "n < m" for m
  proof
    assume "ray r c y x m \<in> set ms"
    then have "slides_to b me r c y x m" using mem[of m] that assms(5) by simp
    moreover have "n \<in> {1..<m}" using that assms(5) by simp
    ultimately have "occupant b (ray r c y x n) = None"
      unfolding slides_to_def by blast
    then show False using assms(7) by simp
  qed
  have "slides_to b me r c y x n \<longleftrightarrow> color p \<noteq> me"
  proof
    assume "slides_to b me r c y x n"
    then have "open_to b me (ray r c y x n)" unfolding slides_to_def by blast
    then show "color p \<noteq> me" using assms(7) by (simp add: open_to_def)
  next
    assume enemy: "color p \<noteq> me"
    show "slides_to b me r c y x n"
      unfolding slides_to_def
    proof (intro conjI ballI)
      show "1 \<le> n" by (rule assms(5))
    next
      fix j assume "j \<in> {1..n}"
      then have "j \<le> n" by simp
      then show "on_board (ray r c y x j)" by (rule ray_between[OF assms(2,6)])
    next
      fix j assume "j \<in> {1..<n}"
      then show "occupant b (ray r c y x j) = None" using assms(8) by blast
    next
      show "open_to b me (ray r c y x n)" using assms(7) enemy by (simp add: open_to_def)
    qed
  qed
  then have at_n: "ray r c y x n \<in> set ms \<longleftrightarrow> color p \<noteq> me"
    using mem[OF assms(5)] by simp
  show ?thesis
    using ms(1) beyond at_n by blast
qed

lemma well_formed_Board: "well_formed Board_initialize_board"
  by (simp add: well_formed_def Board_initialize_board_def back_rank_def empty_row_def)

text \<open>
  Claim C6. A Rook, Bishop or Queen of colour \<open>me\<close> is asked for its moves from a square
  \<open>(r, c)\<close> of the board. The directions are written out: the four along rows and columns
  for a Rook, the four diagonals for a Bishop, all eight for a Queen. If the first
  occupied square in the direction \<open>(y, x)\<close> is the \<open>n\<close>-th one and holds the piece \<open>p\<close>,
  then the method returns a list that contains no square beyond the \<open>n\<close>-th in that
  direction, and contains the \<open>n\<close>-th one exactly when \<open>p\<close> is of the other colour.
\<close>

theorem slide_stops_at_first_piece:
  assumes "well_formed b" and "check_pos r c"
    and "k = Rook \<and> (y, x) \<in> {(- 1, 0), (1, 0), (0, - 1), (0, 1)}
         \<or> k = Bishop \<and> (y, x) \<in> {(- 1, - 1), (- 1, 1), (1, - 1), (1, 1)}
         \<or> k = Queen \<and> (y, x) \<in> {(- 1, 0), (1, 0), (0, - 1), (0, 1),
                                  (- 1, - 1), (- 1, 1), (1, - 1), (1, 1)}"
    and "1 \<le> n" and "on_board (ray r c y x n)"
    and "occupant b (ray r c y x n) = Some p"
    and "\<forall>j\<in>{1..<n}. occupant b (ray r c y x j) = None"
  shows "\<exists>ms. get_possible_moves (Figure me k) b r c = Some (Inr ms)
           \<and> (\<forall>m>n. ray r c y x m \<notin> set ms)
           \<and> (ray r c y x n \<in> set ms \<longleftrightarrow> color p \<noteq> me)"
proof -
  have k: "k = Rook \<or> k = Bishop \<or> k = Queen" using assms(3) by blast
  have d: "(y, x) \<in> set (directions_of k)"
    using assms(3) by (auto simp: rook_directions_def bishop_directions_def)
  show ?thesis
    by (rule slide_stops_in_table_direction[OF assms(1,2) k d assms(4,5,6,7)])
qed

text \<open>
  A white Bishop on (4, 4) of the opening position, looking up the diagonal to the
  right: two empty squares, then the black Pawn on (1, 7), which it may capture; and a
  white Queen on (4, 4) looking down the column, where the white Pawn on (6, 4) is the
  first piece, one square away, and is not offered.
\<close>

theorem slide_stops_at_first_piece_witness:
  "well_formed Board_initialize_board \<and> check_pos 4 4
   \<and> on_board (ray 4 4 (- 1) 1 3)
   \<and> occupant Board_initialize_board (ray 4 4 (- 1) 1 3) = Some (Figure Black Pawn)
   \<and> occupant Board_initialize_board (ray 4 4 (- 1) 1 1) = None
   \<and> occupant Board_initialize_board (ray 4 4 (- 1) 1 2) = None
   \<and> (\<exists>ms. get_possible_moves (Figure White Bishop) Board_initialize_board 4 4 = Some (Inr ms)
           \<and> ray 4 4 (- 1) 1 4 \<notin> set ms
           \<and> ray 4 4 (- 1) 1 3 \<in> set ms)
   \<and> occupant Board_initialize_board (ray 4 4 1 0 2) = Some (Figure White Pawn)
   \<and> occupant Board_initialize_board (ray 4 4 1 0 1) = None
   \<and> (\<exists>ms. get_possible_moves (Figure White Queen) Board_initialize_board 4 4 = Some (Inr ms)
           \<and> ray 4 4 1 0 3 \<notin> set ms
           \<and> ray 4 4 1 0 2 \<notin> set ms)"
proof -
  note defs = occupant_def ray_def cell_def Board_initialize_board_def empty_row_def
    back_rank_def
  have h1: "check_pos 4 4" by (simp add: check_pos_def)
  have h3: "on_board (ray 4 4 (- 1) 1 3)" by (simp add: on_board_def ray_def check_pos_def)
  have h4: "occupant Board_initialize_board (ray 4 4 (- 1) 1 3) = Some (Figure Black Pawn)"
    by (simp add: defs)
  have e1: "occupant Board_initialize_board (ray 4 4 (- 1) 1 1) = None"
    by (simp add: defs)
  have e2: "occupant Board_initialize_board (ray 4 4 (- 1) 1 2) = None"
    by (simp add: defs)
  have h5: "\<forall>j\<in>{1..<3}. occupant Board_initialize_board (ray 4 4 (- 1) 1 j) = None"
  proof
    fix j :: nat assume "j \<in> {1..<3}"
    then have "j = 1 \<or> j = 2" by auto
    then show "occupant Board_initialize_board (ray 4 4 (- 1) 1 j) = None"
      using e1 e2 by auto
  qed
  have dB: "Bishop = Rook \<and> (- 1, 1) \<in> {(- 1, 0), (1, 0), (0, - 1), (0, 1::int)}
         \<or> Bishop = Bishop \<and> (- 1, 1) \<in> {(- 1, - 1), (- 1, 1), (1, - 1), (1, 1::int)}
         \<or> Bishop = Queen \<and> (- 1, 1) \<in> {(- 1, 0), (1, 0), (0, - 1), (0, 1),
                                  (- 1, - 1), (- 1, 1), (1, - 1), (1, 1::int)}"
    by simp
  obtain ms where ms:
      "get_possible_moves (Figure White Bishop) Board_initialize_board 4 4 = Some (Inr ms)"
      "\<forall>m>3. ray 4 4 (- 1) 1 m \<notin> set ms"
      "ray 4 4 (- 1) 1 3 \<in> set ms"
    using slide_stops_at_first_piece[OF well_formed_Board h1 dB _ h3 h4 h5, of White]
    by auto
  have bishop: "\<exists>ms. get_possible_moves (Figure White Bishop) Board_initialize_board 4 4
                    = Some (Inr ms)
           \<and> ray 4 4 (- 1) 1 4 \<notin> set ms \<and> ray 4 4 (- 1) 1 3 \<in> set ms"
    using ms by auto
  have q3: "on_board (ray 4 4 1 0 2)" by (simp add: on_board_def ray_def check_pos_def)
  have q4: "occupant Board_initialize_board (ray 4 4 1 0 2) = Some (Figure White Pawn)"
    by (simp add: defs)
  have q1: "occupant Board_initialize_board (ray 4 4 1 0 1) = None"
    by (simp add: defs)
  have q5: "\<forall>j\<in>{1..<2}. occupant Board_initialize_board (ray 4 4 1 0 j) = None"
  proof
    fix j :: nat assume "j \<in> {1..<2}"
    then have "j = 1" by auto
    then show "occupant Board_initialize_board (ray 4 4 1 0 j) = None"
      using q1 by auto
  qed
  have dQ: "Queen = Rook \<and> (1, 0) \<in> {(- 1, 0), (1, 0), (0, - 1), (0, 1::int)}
         \<or> Queen = Bishop \<and> (1, 0) \<in> {(- 1, - 1), (- 1, 1), (1, - 1), (1, 1::int)}
         \<or> Queen = Queen \<and> (1, 0) \<in> {(- 1, 0), (1, 0), (0, - 1), (0, 1),
                                  (- 1, - 1), (- 1, 1), (1, - 1), (1, 1::int)}"
    by simp
  obtain qs where qs:
      "get_possible_moves (Figure White Queen) Board_initialize_board 4 4 = Some (Inr qs)"
      "\<forall>m>2. ray 4 4 1 0 m \<notin> set qs"
      "ray 4 4 1 0 2 \<notin> set qs"
    using slide_stops_at_first_piece[OF well_formed_Board h1 dQ _ q3 q4 q5, of White]
    by auto
  have queen: "\<exists>ms. get_possible_moves (Figure White Queen) Board_initialize_board 4 4
                    = Some (Inr ms)
           \<and> ray 4 4 1 0 3 \<notin> set ms \<and> ray 4 4 1 0 2 \<notin> set ms"
    using qs by auto
  show ?thesis
    using well_formed_Board h1 h3 h4 e1 e2 bishop q4 q1 queen by blast
qed

section \<open>Every figure returns its moves, and they are on the board\<close>

lemma candidates_loop_filter:
  assumes "well_formed b"
  shows "candidates_loop b me cs acc =
           Inr (acc @ filter (\<lambda>sq. on_board sq \<and> open_to b me sq) cs)"
proof (induction cs arbitrary: acc)
  case Nil
  then show ?case by simp
next
  case (Cons sq cs)
  obtain row col where sq: "sq = (row, col)" by (cases sq)
  show ?case
  proof (cases "check_pos row col")
    case False
    then show ?thesis using Cons sq by (simp add: on_board_def)
  next
    case True
    show ?thesis
    proof (cases "cell b row col")
      case None
      then show ?thesis
        using Cons True sq assms
        by (simp add: on_board_def open_to_def occupant_def get_figure_on_board)
    next
      case (Some f)
      then show ?thesis
        using Cons True sq assms
        by (simp add: on_board_def open_to_def occupant_def get_figure_on_board)
    qed
  qed
qed

lemma pawn_attack_filter:
  assumes "well_formed b"
  shows "pawn_attack b me new_row cols acc =
           Inr (acc @ filter (\<lambda>sq. on_board sq \<and> enemy_at b me sq)
                        (map (\<lambda>col. (new_row, col)) cols))"
proof (induction cols arbitrary: acc)
  case Nil
  then show ?case by simp
next
  case (Cons col cols)
  show ?case
  proof (cases "check_pos new_row col")
    case False
    then show ?thesis using Cons by (simp add: on_board_def)
  next
    case True
    show ?thesis
    proof (cases "cell b new_row col")
      case None
      then show ?thesis
        using Cons True assms
        by (simp add: on_board_def enemy_at_def occupant_def get_figure_on_board)
    next
      case (Some f)
      then show ?thesis
        using Cons True assms
        by (simp add: on_board_def enemy_at_def occupant_def get_figure_on_board)
    qed
  qed
qed

lemma pawn_forward_returns:
  assumes "well_formed b"
  shows "\<exists>ms. pawn_forward b me r c = Inr ms \<and> (\<forall>sq\<in>set ms. on_board sq)
           \<and> (ms \<noteq> [] \<longrightarrow> check_pos (r + (if me = White then - 1 else 1)) c)"
proof (cases "check_pos (r + (if me = White then - 1 else 1)) c")
  case False
  then show ?thesis by (simp add: pawn_forward_def Let_def)
next
  case True
  note one = this
  show ?thesis
  proof (cases "cell b (r + (if me = White then - 1 else 1)) c")
    case (Some f)
    then show ?thesis
      using one assms by (simp add: pawn_forward_def Let_def get_figure_on_board)
  next
    case None
    note empty1 = this
    show ?thesis
    proof (cases "(me = White \<and> r = 6 \<or> me = Black \<and> r = 1)
                  \<and> check_pos (r + 2 * (if me = White then - 1 else 1)) c")
      case False
      then show ?thesis
        using one empty1 assms
        by (auto simp: pawn_forward_def Let_def get_figure_on_board on_board_def)
    next
      case True
      then show ?thesis
        using one empty1 assms
        by (cases "cell b (r + 2 * (if me = White then - 1 else 1)) c")
           (auto simp: pawn_forward_def Let_def get_figure_on_board on_board_def)
    qed
  qed
qed

lemma slide_targets_on_board:
  assumes "sq \<in> slide_targets b me r c d" and "unit_step (fst d) (snd d)"
  shows "on_board sq \<and> \<not> far_off r c"
proof -
  obtain n where n: "slides_to b me r c (fst d) (snd d) n" "sq = ray r c (fst d) (snd d) n"
    using assms(1) unfolding slide_targets_def by blast
  have "1 \<le> n" using n(1) unfolding slides_to_def by blast
  then have "n \<in> {1..n}" "1 \<in> {1..n}" by auto
  then have "on_board (ray r c (fst d) (snd d) n)" "on_board (ray r c (fst d) (snd d) 1)"
    using n(1) unfolding slides_to_def by blast+
  then show ?thesis
    using n(2) assms(2)
    by (auto simp: on_board_def ray_def check_pos_def far_off_def unit_step_def)
qed

lemma sliders_return:
  assumes "well_formed b" and "k = Rook \<or> k = Bishop \<or> k = Queen"
  shows "\<exists>ms. get_possible_moves (Figure me k) b r c = Some (Inr ms)
           \<and> list_all on_board ms \<and> (far_off r c \<longrightarrow> ms = [])"
proof -
  obtain ms where ms: "get_possible_moves (Figure me k) b r c = Some (Inr ms)"
      "set ms = (\<Union>d\<in>set (directions_of k). slide_targets b me r c d)"
    using slider_squares[OF assms, of me r c] by meson
  have each: "on_board sq \<and> \<not> far_off r c" if mem: "sq \<in> set ms" for sq
  proof -
    obtain d where "d \<in> set (directions_of k)" "sq \<in> slide_targets b me r c d"
      using mem unfolding ms(2) by blast
    then show ?thesis
      using slide_targets_on_board unit_directions_of by blast
  qed
  have "list_all on_board ms" using each by (simp add: list_all_iff)
  moreover have "ms = []" if "far_off r c"
  proof (cases ms)
    case (Cons sq rest)
    then have "sq \<in> set ms" by simp
    then show ?thesis using each that by blast
  qed simp
  ultimately show ?thesis using ms(1) by blast
qed

lemma candidates_return:
  assumes "well_formed b"
    and "\<forall>sq\<in>set cs. on_board sq \<longrightarrow> \<not> far_off r c"
  shows "\<exists>ms. candidates_loop b me cs [] = Inr ms
           \<and> list_all on_board ms \<and> (far_off r c \<longrightarrow> ms = [])"
proof -
  let ?ms = "filter (\<lambda>sq. on_board sq \<and> open_to b me sq) cs"
  have "candidates_loop b me cs [] = Inr ?ms"
    using candidates_loop_filter[OF assms(1), of me cs "[]"] by simp
  moreover have "list_all on_board ?ms" by (simp add: list_all_iff)
  moreover have "?ms = []" if "far_off r c"
    using assms(2) that by (auto simp: filter_empty_conv)
  ultimately show ?thesis by blast
qed

lemma pawn_returns:
  assumes "well_formed b"
  shows "\<exists>ms. Pawn_get_possible_moves b me r c = Inr ms
           \<and> list_all on_board ms \<and> (far_off r c \<longrightarrow> ms = [])"
proof -
  let ?row = "r + (if me = White then - 1 else 1)"
  obtain ms0 where ms0: "pawn_forward b me r c = Inr ms0" "\<forall>sq\<in>set ms0. on_board sq"
      "ms0 \<noteq> [] \<longrightarrow> check_pos ?row c"
    using pawn_forward_returns[OF assms, of me r c] by blast
  let ?att = "filter (\<lambda>sq. on_board sq \<and> enemy_at b me sq)
                        (map (\<lambda>col. (?row, col)) [c - 1, c + 1])"
  have run: "Pawn_get_possible_moves b me r c = Inr (ms0 @ ?att)"
    using ms0(1) pawn_attack_filter[OF assms, of me ?row "[c - 1, c + 1]" ms0]
    by (simp add: Pawn_get_possible_moves_def)
  have on: "list_all on_board (ms0 @ ?att)"
    using ms0(2) by (simp add: list_all_iff)
  have far: "ms0 @ ?att = []" if "far_off r c"
  proof -
    have "\<not> check_pos ?row c" "\<not> check_pos ?row (c - 1)" "\<not> check_pos ?row (c + 1)"
      using that by (auto simp: far_off_def check_pos_def)
    then show ?thesis using ms0(3) by (auto simp: on_board_def)
  qed
  show ?thesis using run on far by blast
qed

lemma plain_returns:
  assumes "well_formed b" and "\<forall>p. k \<noteq> Demon p"
  shows "\<exists>ms. get_possible_moves (Figure me k) b r c = Some (Inr ms)
           \<and> list_all on_board ms \<and> (far_off r c \<longrightarrow> ms = [])"
proof (cases k)
  case Pawn
  then show ?thesis using pawn_returns[OF assms(1), of me r c] by simp
next
  case Rook
  then show ?thesis using sliders_return[OF assms(1), of k me r c] by simp
next
  case Knight
  have "\<exists>ms. Knight_get_possible_moves b me r c = Inr ms
           \<and> list_all on_board ms \<and> (far_off r c \<longrightarrow> ms = [])"
    unfolding Knight_get_possible_moves_def
    by (rule candidates_return[OF assms(1)])
       (auto simp: on_board_def check_pos_def far_off_def)
  then show ?thesis using Knight by simp
next
  case Bishop
  then show ?thesis using sliders_return[OF assms(1), of k me r c] by simp
next
  case Queen
  then show ?thesis using sliders_return[OF assms(1), of k me r c] by simp
next
  case King
  have "\<exists>ms. King_get_possible_moves b me r c = Inr ms
           \<and> list_all on_board ms \<and> (far_off r c \<longrightarrow> ms = [])"
    unfolding King_get_possible_moves_def
    by (rule candidates_return[OF assms(1)])
       (auto simp: on_board_def check_pos_def far_off_def)
  then show ?thesis using King by simp
next
  case Mage
  then show ?thesis by simp
next
  case Spearman
  have "\<exists>ms. Spearman_get_possible_moves b me r c = Inr ms
           \<and> list_all on_board ms \<and> (far_off r c \<longrightarrow> ms = [])"
    unfolding Spearman_get_possible_moves_def Let_def
    by (rule candidates_return[OF assms(1)])
       (auto simp: on_board_def check_pos_def far_off_def)
  then show ?thesis using Spearman by simp
next
  case (Demon p)
  then show ?thesis using assms(2) by simp
qed

text \<open>On an 8 x 8 board every figure returns a list of squares of the board.\<close>

lemma get_possible_moves_returns:
  assumes "well_formed b"
  shows "\<exists>ms. get_possible_moves f b r c = Some (Inr ms)
           \<and> list_all on_board ms \<and> (far_off r c \<longrightarrow> ms = [])"
proof -
  obtain me k where f: "f = Figure me k" by (cases f)
  show ?thesis
  proof (cases "\<exists>p. k = Demon p")
    case False
    then show ?thesis using plain_returns[OF assms, of k me r c] f by simp
  next
    case True
    then obtain p where p: "k = Demon p" by blast
    show ?thesis
    proof (cases "p = NDemon")
      case False
      then have "\<forall>q. construct p \<noteq> Demon q" by (cases p) auto
      then show ?thesis using plain_returns[OF assms, of "construct p" me r c] f p by simp
    next
      case True
      then show ?thesis using plain_returns[OF assms, of King me r c] f p by simp
    qed
  qed
qed

text \<open>\<open>is_valid_move\<close> returns a truth value, and \<open>False\<close> for a target off the board.\<close>

lemma is_valid_move_returns:
  assumes "well_formed b"
  shows "\<exists>v. is_valid_move f b r c er ec = Some (Inr v) \<and> (\<not> check_pos er ec \<longrightarrow> \<not> v)"
proof (cases "check_pos er ec")
  case False
  then have "is_valid_move f b r c er ec = Some (Inr False)" by (simp add: is_valid_move_def)
  then show ?thesis by blast
next
  case True
  obtain ms where ms: "get_possible_moves f b r c = Some (Inr ms)"
    using get_possible_moves_returns[OF assms, of f r c] by meson
  show ?thesis
    using True ms assms
    by (auto simp: is_valid_move_def get_figure_on_board split: option.splits)
qed

section \<open>Python subscripts on a well-formed board\<close>

lemma wrap_range: "subscriptable i \<Longrightarrow> 0 \<le> wrap i \<and> wrap i < 8"
  by (auto simp: subscriptable_def wrap_def)

lemma wrap_on_board: "0 \<le> i \<Longrightarrow> i < 8 \<Longrightarrow> wrap i = i"
  by (simp add: wrap_def)

lemma subscript_8:
  "subscript 8 i = (if subscriptable i then Inr (nat (wrap i)) else Inl IndexError)"
  by (auto simp: subscript_def subscriptable_def wrap_def)

lemma getitem_8:
  "length xs = 8 \<Longrightarrow>
   getitem xs i = (if subscriptable i then Inr (xs ! nat (wrap i)) else Inl IndexError)"
  by (simp add: getitem_def subscript_8)

lemma setitem_8:
  "length xs = 8 \<Longrightarrow>
   setitem xs i v = (if subscriptable i then Inr (xs[nat (wrap i) := v]) else Inl IndexError)"
  by (simp add: setitem_def subscript_8)

lemma get_figure_wrap:
  assumes "well_formed b"
  shows "get_figure b r c =
           (if subscriptable r \<and> subscriptable c then Inr (cell b (wrap r) (wrap c))
            else Inl IndexError)"
proof (cases "subscriptable r")
  case False
  then show ?thesis using assms by (simp add: get_figure_def getitem_8 well_formed_def)
next
  case True
  then have "length (b ! nat (wrap r)) = 8"
    using well_formed_row[OF assms, of "wrap r"] wrap_range[OF True] by simp
  then show ?thesis
    using True assms by (simp add: get_figure_def getitem_8 well_formed_def cell_def)
qed

lemma set_figure_wrap:
  assumes "well_formed b"
  shows "set_figure b r c v =
           (if subscriptable r \<and> subscriptable c then Inr (put b (wrap r) (wrap c) v)
            else Inl IndexError)"
proof (cases "subscriptable r")
  case False
  then show ?thesis using assms by (simp add: set_figure_def getitem_8 well_formed_def)
next
  case True
  then have "length (b ! nat (wrap r)) = 8"
    using well_formed_row[OF assms, of "wrap r"] wrap_range[OF True] by simp
  then show ?thesis
    using True assms
    by (simp add: set_figure_def getitem_8 setitem_8 well_formed_def put_def)
qed

lemma well_formed_put: "well_formed b \<Longrightarrow> well_formed (put b r c v)"
proof -
  assume wf: "well_formed b"
  have "length ((b[nat r := (b ! nat r)[nat c := v]]) ! n) = 8" if "n < 8" for n
  proof (cases "nat r < length b")
    case True
    then show ?thesis
      using wf that by (cases "n = nat r") (auto simp: well_formed_def list_all_length)
  next
    case False
    then show ?thesis using wf that by (simp add: well_formed_def list_all_length)
  qed
  then show ?thesis
    using wf by (simp add: well_formed_def put_def list_all_length)
qed

lemma cell_put:
  assumes "well_formed b" and "check_pos r c" and "check_pos r' c'"
  shows "cell (put b r c v) r' c' = (if r' = r \<and> c' = c then v else cell b r' c')"
proof -
  have len: "nat r < length b" "nat r' < length b"
    using assms by (auto simp: well_formed_def check_pos_def)
  have row: "nat c < length (b ! nat r)"
    using well_formed_row[OF assms(1), of r] assms(2) by (auto simp: check_pos_def)
  have eq: "nat r' = nat r \<longleftrightarrow> r' = r" "nat c' = nat c \<longleftrightarrow> c' = c"
    using assms(2,3) by (auto simp: check_pos_def)
  show ?thesis
    using len row eq by (auto simp: cell_def put_def nth_list_update)
qed

lemma subscriptable_on_board: "check_pos r c \<Longrightarrow> subscriptable r \<and> subscriptable c"
  by (simp add: check_pos_def subscriptable_def)

section \<open>Chess: what \<open>move_figure\<close> does\<close>

lemma move_figure_outcome:
  assumes "well_formed b"
  shows "move_figure b sr sc er ec =
     (if \<not> (subscriptable sr \<and> subscriptable sc) then Some (Inl IndexError, b)
      else
        (case cell b (wrap sr) (wrap sc) of
           None \<Rightarrow> Some (Inr Rejected, b)
         | Some f \<Rightarrow>
             (if is_valid_move f b sr sc er ec = Some (Inr True)
              then Some (Inr (Moved (cell b er ec)), relocate b sr sc er ec)
              else Some (Inr Rejected, b))))"
proof (cases "subscriptable sr \<and> subscriptable sc")
  case False
  then have "get_figure b sr sc = Inl IndexError" using assms by (simp add: get_figure_wrap)
  then show ?thesis using False by (simp add: move_figure_def)
next
  case True
  note start = this
  show ?thesis
  proof (cases "cell b (wrap sr) (wrap sc)")
    case None
    then show ?thesis using start assms by (simp add: move_figure_def get_figure_wrap)
  next
    case (Some f)
    obtain v where v: "is_valid_move f b sr sc er ec = Some (Inr v)"
        "\<not> check_pos er ec \<longrightarrow> \<not> v"
      using is_valid_move_returns[OF assms, of f sr sc er ec] by blast
    show ?thesis
    proof (cases v)
      case False
      then show ?thesis
        using start Some v assms by (simp add: move_figure_def get_figure_wrap)
    next
      case True
      then have on: "check_pos er ec" using v(2) by blast
      have wf1: "well_formed (put b er ec (Some f))" by (rule well_formed_put[OF assms])
      have s1: "set_figure b er ec (Some f) = Inr (put b er ec (Some f))"
        using subscriptable_on_board[OF on] on
        by (simp add: set_figure_wrap[OF assms] wrap_on_board check_pos_def)
      have s2: "set_figure (put b er ec (Some f)) sr sc None
                  = Inr (put (put b er ec (Some f)) (wrap sr) (wrap sc) None)"
        using start by (simp add: set_figure_wrap[OF wf1])
      have g0: "get_figure b sr sc = Inr (Some f)"
        using start Some by (simp add: get_figure_wrap[OF assms])
      have g1: "get_figure b er ec = Inr (cell b er ec)"
        by (rule get_figure_on_board[OF assms on])
      show ?thesis
        using start Some v True g0 g1 s1 s2
        by (simp add: move_figure_def relocate_def)
    qed
  qed
qed

section \<open>Checkers: the moves of a Checker\<close>

lemma capture_loop_filter:
  assumes "well_formed b"
  shows "capture_loop b me r c ds acc =
           Inr (acc @ map (\<lambda>d. ray r c (fst d) (snd d) 2) (filter (can_capture b me r c) ds))"
proof (induction ds arbitrary: acc)
  case Nil
  then show ?case by simp
next
  case (Cons d ds)
  obtain dr dc where d: "d = (dr, dc)" by (cases d)
  show ?case
  proof (cases "check_pos (r + dr) (c + dc)")
    case False
    then show ?thesis
      using Cons d by (simp add: can_capture_def on_board_def ray_def)
  next
    case True
    note near = this
    show ?thesis
    proof (cases "cell b (r + dr) (c + dc)")
      case None
      then show ?thesis
        using Cons d near assms
        by (simp add: can_capture_def on_board_def ray_def enemy_ck_def occupant_def
              get_figure_on_board)
    next
      case (Some position)
      show ?thesis
      proof (cases "piece_color position \<noteq> me \<and> check_pos (r + 2 * dr) (c + 2 * dc)")
        case False
        then show ?thesis
          using Cons d near Some assms
          by (auto simp: can_capture_def on_board_def ray_def enemy_ck_def occupant_def
                get_figure_on_board)
      next
        case True
        then show ?thesis
          using Cons d near Some assms
          by (cases "cell b (r + 2 * dr) (c + 2 * dc)")
             (auto simp: can_capture_def on_board_def ray_def enemy_ck_def occupant_def
                get_figure_on_board)
      qed
    qed
  qed
qed

lemma forward_loop_filter:
  "forward_loop r c ds acc = acc @ filter on_board (map (\<lambda>d. ray r c (fst d) (snd d) 1) ds)"
proof (induction ds arbitrary: acc)
  case Nil
  then show ?case by simp
next
  case (Cons d ds)
  obtain dr dc where d: "d = (dr, dc)" by (cases d)
  show ?case using Cons d by (simp add: on_board_def ray_def)
qed

text \<open>
  A Checker that is in a chain of captures, or has a capture at hand, is given its
  captures and nothing else; otherwise it is given its two steps forward.
\<close>

lemma Checker_moves:
  assumes "well_formed b"
  shows "Checker_get_possible_moves b me r c is_killer =
           Inr (if is_killer \<or> capture_squares b me r c \<noteq> [] then capture_squares b me r c
                else filter on_board
                       (map (\<lambda>d. ray r c (fst d) (snd d) 1)
                          [(if me = White then - 1 else 1, 1), (if me = White then - 1 else 1, - 1)]))"
  using capture_loop_filter[OF assms, of me r c checker_directions "[]"]
  by (simp add: Checker_get_possible_moves_def capture_squares_def forward_loop_filter Let_def)

section \<open>Checkers: the moves of a KingChecker\<close>

lemma king_slide_off_board:
  "\<not> check_pos row col \<Longrightarrow> king_slide b me dr dc row col acc = Some (Inr acc)"
  by (subst king_slide.simps) simp

lemma king_slide_empty:
  "well_formed b \<Longrightarrow> check_pos row col \<Longrightarrow> cell b row col = None \<Longrightarrow>
   king_slide b me dr dc row col acc
     = king_slide b me dr dc (row + dr) (col + dc) (acc @ [(row, col)])"
  by (subst king_slide.simps) (simp add: get_figure_on_board)

lemma king_slide_blocked:
  assumes "well_formed b" and "check_pos row col" and "cell b row col = Some p"
  shows "king_slide b me dr dc row col acc =
           Some (Inr (acc @ jump_square b me (row, col) (row + dr, col + dc)))"
proof (cases "piece_color p \<noteq> me \<and> check_pos (row + dr) (col + dc)")
  case False
  then show ?thesis
    using assms
    by (subst king_slide.simps)
       (auto simp: get_figure_on_board jump_square_def enemy_ck_def occupant_def on_board_def)
next
  case True
  then show ?thesis
    using assms
    by (subst king_slide.simps, cases "cell b (row + dr) (col + dc)")
       (auto simp: get_figure_on_board jump_square_def enemy_ck_def occupant_def on_board_def)
qed

lemma king_slide_unroll:
  assumes "well_formed b"
    and "\<forall>j<k. check_pos (row + int j * dr) (col + int j * dc)
              \<and> cell b (row + int j * dr) (col + int j * dc) = None"
  shows "king_slide b me dr dc row col acc =
         king_slide b me dr dc (row + int k * dr) (col + int k * dc)
           (acc @ map (ray row col dr dc) [0..<k])"
  using assms(2)
proof (induction k)
  case 0
  then show ?case by simp
next
  case (Suc k)
  then have sq: "check_pos (row + int k * dr) (col + int k * dc)"
       "cell b (row + int k * dr) (col + int k * dc) = None"
    by auto
  have "king_slide b me dr dc row col acc =
        king_slide b me dr dc (row + int k * dr) (col + int k * dc)
          (acc @ map (ray row col dr dc) [0..<k])"
    using Suc by simp
  also have "\<dots> = king_slide b me dr dc (row + int k * dr + dr) (col + int k * dc + dc)
       ((acc @ map (ray row col dr dc) [0..<k]) @ [(row + int k * dr, col + int k * dc)])"
    by (rule king_slide_empty[OF assms(1) sq])
  finally show ?case
    by (simp add: ray_def[abs_def] algebra_simps)
qed

text \<open>The loop returns: the empty squares up to the first stop, then the landing square.\<close>

lemma king_slide_run:
  assumes "well_formed b" and "unit_step dr dc"
  shows "\<exists>k\<le>8. (\<forall>j<k. on_board (ray row col dr dc j) \<and> occupant b (ray row col dr dc j) = None)
          \<and> king_slide b me dr dc row col acc =
              Some (Inr (acc @ map (ray row col dr dc) [0..<k]
                   @ jump_square b me (ray row col dr dc k) (ray row col dr dc (Suc k))))"
proof -
  obtain k where k: "k \<le> 8"
      "\<forall>j<k. check_pos (row + int j * dr) (col + int j * dc)
                      \<and> cell b (row + int j * dr) (col + int j * dc) = None"
      "\<not> (check_pos (row + int k * dr) (col + int k * dc)
                      \<and> cell b (row + int k * dr) (col + int k * dc) = None)"
    using first_stop[OF assms(2), of row col b] by blast
  have run: "king_slide b me dr dc row col acc =
         king_slide b me dr dc (row + int k * dr) (col + int k * dc)
           (acc @ map (ray row col dr dc) [0..<k])"
    by (rule king_slide_unroll[OF assms(1) k(2)])
  have nxt: "(row + int k * dr + dr, col + int k * dc + dc) = ray row col dr dc (Suc k)"
    by (simp add: ray_def algebra_simps)
  have stop: "king_slide b me dr dc (row + int k * dr) (col + int k * dc)
                (acc @ map (ray row col dr dc) [0..<k])
      = Some (Inr ((acc @ map (ray row col dr dc) [0..<k])
           @ jump_square b me (ray row col dr dc k) (ray row col dr dc (Suc k))))"
  proof (cases "check_pos (row + int k * dr) (col + int k * dc)")
    case False
    then show ?thesis
      by (simp add: king_slide_off_board jump_square_def on_board_def ray_def)
  next
    case True
    with k(3) obtain p where p: "cell b (row + int k * dr) (col + int k * dc) = Some p" by auto
    show ?thesis
      unfolding king_slide_blocked[OF assms(1) True p] nxt
      by (simp add: ray_def)
  qed
  show ?thesis
    using k run stop by (intro exI[of _ k]) (simp add: on_board_def occupant_def ray_def)
qed

lemma unit_checker_directions: "d \<in> set checker_directions \<Longrightarrow> unit_step (fst d) (snd d)"
  by (auto simp: checker_directions_def unit_step_def)

lemma jump_square_mem:
  "sq \<in> set (jump_square b me s next) \<longleftrightarrow>
     sq = next \<and> on_board s \<and> enemy_ck b me s \<and> on_board next \<and> occupant b next = None"
  by (cases "on_board s \<and> enemy_ck b me s \<and> on_board next \<and> occupant b next = None")
     (simp_all add: jump_square_def)

text \<open>The squares the loop adds for one diagonal lie along it.\<close>

lemma king_slide_along:
  assumes "well_formed b" and "d \<in> set checker_directions"
  shows "\<exists>ms. king_slide b me (fst d) (snd d) (r + fst d) (c + snd d) acc = Some (Inr (acc @ ms))
          \<and> (\<forall>sq\<in>set ms. \<exists>n. along r c d n sq)"
proof -
  let ?dr = "fst d" and ?dc = "snd d"
  from king_slide_run[OF assms(1) unit_checker_directions[OF assms(2)],
        of "r + ?dr" "c + ?dc" me acc]
  obtain k where k:
      "\<forall>j<k. on_board (ray r c ?dr ?dc (Suc j))"
      "king_slide b me ?dr ?dc (r + ?dr) (c + ?dc) acc =
         Some (Inr (acc @ map (ray (r + ?dr) (c + ?dc) ?dr ?dc) [0..<k]
            @ jump_square b me (ray r c ?dr ?dc (Suc k)) (ray r c ?dr ?dc (Suc (Suc k)))))"
    unfolding ray_shift by blast
  have go: "on_board (ray r c ?dr ?dc i)" if "1 \<le> i" "i \<le> k" for i
  proof -
    have "i = Suc (i - 1)" "i - 1 < k" using that by linarith+
    then show ?thesis using k(1) by metis
  qed
  let ?ms = "map (ray (r + ?dr) (c + ?dc) ?dr ?dc) [0..<k]
            @ jump_square b me (ray r c ?dr ?dc (Suc k)) (ray r c ?dr ?dc (Suc (Suc k)))"
  have "\<exists>n. along r c d n sq" if mem: "sq \<in> set ?ms" for sq
  proof -
    consider j where "j < k" "sq = ray r c ?dr ?dc (Suc j)"
      | "sq \<in> set (jump_square b me (ray r c ?dr ?dc (Suc k)) (ray r c ?dr ?dc (Suc (Suc k))))"
      using mem by (auto simp: ray_shift)
    then show ?thesis
    proof cases
      case 1
      have "along r c d (Suc j) sq"
        unfolding along_def
      proof (intro conjI ballI)
        show "on_board sq" using go[of "Suc j"] 1 by simp
      next
        fix i assume "i \<in> {1..<Suc j}"
        then have "1 \<le> i" "i \<le> k" using 1(1) by auto
        then show "on_board (ray r c ?dr ?dc i)" by (rule go)
      qed (use assms(2) 1(2) in simp_all)
      then show ?thesis by blast
    next
      case 2
      then have j: "sq = ray r c ?dr ?dc (Suc (Suc k))" "on_board (ray r c ?dr ?dc (Suc k))"
          "on_board sq"
        unfolding jump_square_mem by simp_all
      have "along r c d (Suc (Suc k)) sq"
        unfolding along_def
      proof (intro conjI ballI)
        fix i assume i: "i \<in> {1..<Suc (Suc k)}"
        show "on_board (ray r c ?dr ?dc i)"
        proof (cases "i = Suc k")
          case True then show ?thesis using j(2) by simp
        next
          case False
          then have "1 \<le> i" "i \<le> k" using i by auto
          then show ?thesis by (rule go)
        qed
      qed (use assms(2) j in simp_all)
      then show ?thesis by blast
    qed
  qed
  then show ?thesis using k(2) by blast
qed

lemma king_slide_all_along:
  assumes "well_formed b" and "set ds \<subseteq> set checker_directions"
  shows "\<exists>ms. king_slide_all b me r c ds acc = Some (Inr (acc @ ms))
          \<and> (\<forall>sq\<in>set ms. \<exists>d n. along r c d n sq)"
  using assms(2)
proof (induction ds arbitrary: acc)
  case Nil
  then show ?case by simp
next
  case (Cons d ds)
  obtain dr dc where d: "d = (dr, dc)" by (cases d)
  have "d \<in> set checker_directions" using Cons.prems by simp
  from king_slide_along[OF assms(1) this, of me r c acc]
  obtain ms1 where ms1: "king_slide b me dr dc (r + dr) (c + dc) acc = Some (Inr (acc @ ms1))"
      "\<forall>sq\<in>set ms1. \<exists>d n. along r c d n sq"
    unfolding d fst_conv snd_conv by meson
  have "set ds \<subseteq> set checker_directions" using Cons.prems by simp
  from Cons.IH[OF this, of "acc @ ms1"]
  obtain ms2 where ms2: "king_slide_all b me r c ds (acc @ ms1) = Some (Inr ((acc @ ms1) @ ms2))"
      "\<forall>sq\<in>set ms2. \<exists>d n. along r c d n sq"
    by blast
  have run: "king_slide_all b me r c (d # ds) acc = Some (Inr (acc @ ms1 @ ms2))"
    using ms1(1) ms2(1) d by simp
  have "\<forall>sq\<in>set (ms1 @ ms2). \<exists>d n. along r c d n sq"
    using ms1(2) ms2(2) by auto
  then show ?case using run by blast
qed

lemma capture_squares_along:
  assumes "sq \<in> set (capture_squares b me r c)"
  shows "\<exists>d. along r c d 2 sq"
proof -
  obtain d where d: "d \<in> set checker_directions" "can_capture b me r c d"
      "sq = ray r c (fst d) (snd d) 2"
    using assms unfolding capture_squares_def by auto
  have "\<forall>j\<in>{1..<2::nat}. on_board (ray r c (fst d) (snd d) j)"
  proof
    fix j :: nat assume "j \<in> {1..<2}"
    then have "j = 1" by simp
    then show "on_board (ray r c (fst d) (snd d) j)" using d(2) by (simp add: can_capture_def)
  qed
  then have "along r c d 2 sq"
    using d by (simp add: along_def can_capture_def)
  then show ?thesis by blast
qed

lemma forward_squares_along:
  assumes "sq \<in> set (filter on_board (map (\<lambda>d. ray r c (fst d) (snd d) 1)
                          [(if me = White then - 1 else 1, 1), (if me = White then - 1 else 1, - 1)]))"
  shows "\<exists>d. along r c d 1 sq"
proof -
  let ?dir = "if me = White then - 1 else (1::int)"
  have on: "on_board sq" using assms by (simp only: set_filter mem_Collect_eq)
  have "sq \<in> set (map (\<lambda>d. ray r c (fst d) (snd d) 1) [(?dir, 1), (?dir, - 1)])"
    using assms by (simp only: set_filter mem_Collect_eq)
  then have "sq = ray r c ?dir 1 1 \<or> sq = ray r c ?dir (- 1) 1" by simp
  then show ?thesis
  proof
    assume sq: "sq = ray r c ?dir 1 1"
    have "(?dir, 1) \<in> set checker_directions" by (simp add: checker_directions_def)
    then have "along r c (?dir, 1) 1 sq" using sq on by (simp add: along_def)
    then show ?thesis by blast
  next
    assume sq: "sq = ray r c ?dir (- 1) 1"
    have "(?dir, - 1) \<in> set checker_directions" by (simp add: checker_directions_def)
    then have "along r c (?dir, - 1) 1 sq" using sq on by (simp add: along_def)
    then show ?thesis by blast
  qed
qed

text \<open>Both checkers pieces return their moves, and each move runs along a diagonal.\<close>

lemma get_possible_moves_ck_returns:
  assumes "well_formed b"
  shows "\<exists>ms. get_possible_moves_ck f b r c is_killer = Some (Inr ms)
           \<and> (\<forall>sq\<in>set ms. \<exists>d n. along r c d n sq)"
proof -
  obtain me k where f: "f = Piece me k" by (cases f)
  show ?thesis
  proof (cases k)
    case Checker
    let ?ms = "if is_killer \<or> capture_squares b me r c \<noteq> [] then capture_squares b me r c
                else filter on_board
                       (map (\<lambda>d. ray r c (fst d) (snd d) 1)
                          [(if me = White then - 1 else 1, 1), (if me = White then - 1 else 1, - 1)])"
    have run: "get_possible_moves_ck f b r c is_killer = Some (Inr ?ms)"
      using f Checker Checker_moves[OF assms, of me r c is_killer] by simp
    have "\<exists>d n. along r c d n sq" if mem: "sq \<in> set ?ms" for sq
    proof (cases "is_killer \<or> capture_squares b me r c \<noteq> []")
      case True
      then have "sq \<in> set (capture_squares b me r c)" using mem by simp
      then show ?thesis using capture_squares_along by blast
    next
      case False
      then have "sq \<in> set (filter on_board (map (\<lambda>d. ray r c (fst d) (snd d) 1)
                          [(if me = White then - 1 else 1, 1), (if me = White then - 1 else 1, - 1)]))"
        using mem by simp
      then show ?thesis using forward_squares_along by blast
    qed
    then show ?thesis using run by blast
  next
    case KingChecker
    then show ?thesis
      using f king_slide_all_along[OF assms, of checker_directions me r c "[]"]
      by (simp add: KingChecker_get_possible_moves_def)
  qed
qed

text \<open>A move that \<open>is_valid_move\<close> accepts ends on an empty square along a diagonal.\<close>

lemma is_valid_move_ck_returns:
  assumes "well_formed b"
  shows "\<exists>v. is_valid_move_ck f b r c er ec is_killer = Some (Inr v)
           \<and> (v \<longrightarrow> check_pos er ec \<and> cell b er ec = None \<and> (\<exists>d n. along r c d n (er, ec)))"
proof (cases "check_pos er ec")
  case False
  then have "is_valid_move_ck f b r c er ec is_killer = Some (Inr False)"
    by (simp add: is_valid_move_ck_def)
  then show ?thesis by blast
next
  case True
  obtain ms where ms: "get_possible_moves_ck f b r c is_killer = Some (Inr ms)"
      "\<forall>sq\<in>set ms. \<exists>d n. along r c d n sq"
    using get_possible_moves_ck_returns[OF assms, of f r c is_killer] by meson
  show ?thesis
  proof (cases "cell b er ec")
    case (Some t)
    then have "is_valid_move_ck f b r c er ec is_killer = Some (Inr False)"
      using True assms by (simp add: is_valid_move_ck_def get_figure_on_board)
    then show ?thesis by blast
  next
    case None
    then have "is_valid_move_ck f b r c er ec is_killer = Some (Inr ((er, ec) \<in> set ms))"
      using True assms ms(1) by (simp add: is_valid_move_ck_def get_figure_on_board)
    then show ?thesis using ms(2) True None by blast
  qed
qed

section \<open>Checkers: what \<open>move_figure\<close> does\<close>

lemma checker_direction_values:
  "d \<in> set checker_directions \<Longrightarrow> (fst d = 1 \<or> fst d = - 1) \<and> (snd d = 1 \<or> snd d = - 1)"
  by (auto simp: checker_directions_def)

text \<open>The signs the code computes are the direction of the move.\<close>

lemma along_delta:
  assumes "along sr sc d n (er, ec)"
  shows "\<bar>er - sr\<bar> = int n"
    and "(if er - sr > 0 then 1 else - 1) = sgn (er - sr)"
    and "(if ec - sc > 0 then 1 else - 1) = sgn (ec - sc)"
    and "before_landing sr sc er ec = ray sr sc (fst d) (snd d) (n - 1)"
proof -
  have d: "(fst d = 1 \<or> fst d = - 1) \<and> (snd d = 1 \<or> snd d = - 1)"
    using assms checker_direction_values unfolding along_def by blast
  have n: "1 \<le> n" "er = sr + int n * fst d" "ec = sc + int n * snd d"
    using assms unfolding along_def ray_def by auto
  have pos: "0 < int n" using n(1) by simp
  show "\<bar>er - sr\<bar> = int n" using d n pos by auto
  show "(if er - sr > 0 then 1 else - 1) = sgn (er - sr)" using d n pos by auto
  show "(if ec - sc > 0 then 1 else - 1) = sgn (ec - sc)" using d n pos by auto
  have "sgn (er - sr) = fst d" "sgn (ec - sc) = snd d" using d n pos by auto
  moreover have "int (n - 1) = int n - 1" using n(1) by simp
  ultimately show "before_landing sr sc er ec = ray sr sc (fst d) (snd d) (n - 1)"
    using n(2,3) by (simp add: before_landing_def ray_def algebra_simps)
qed

lemma along_before_landing:
  assumes "along sr sc d n (er, ec)" and "2 \<le> n"
  shows "on_board (before_landing sr sc er ec)"
proof -
  have "n - 1 \<in> {1..<n}" using assms(2) by auto
  then have "on_board (ray sr sc (fst d) (snd d) (n - 1))"
    using assms(1) unfolding along_def by blast
  then show ?thesis using along_delta(4)[OF assms(1)] by simp
qed

lemma set_figure_on_board:
  "well_formed b \<Longrightarrow> check_pos r c \<Longrightarrow> set_figure b r c v = Inr (put b r c v)"
  using subscriptable_on_board[of r c]
  by (simp add: set_figure_wrap wrap_on_board check_pos_def)

lemma promote_crown:
  "well_formed b \<Longrightarrow> check_pos er ec \<Longrightarrow> promote b f er ec = Inr (crown b f er ec)"
  by (simp add: promote_def crown_def set_figure_on_board)

lemma well_formed_crown: "well_formed b \<Longrightarrow> well_formed (crown b f er ec)"
  by (simp add: crown_def well_formed_put)

lemma move_figure_ck_outcome:
  assumes "well_formed b"
  shows "move_figure_ck b sr sc er ec is_killer =
     (if \<not> (subscriptable sr \<and> subscriptable sc) then Some (Inl IndexError, b)
      else
        (case cell b (wrap sr) (wrap sc) of
           None \<Rightarrow> Some (Inr Rejected, b)
         | Some f \<Rightarrow>
             (if is_valid_move_ck f b sr sc er ec is_killer = Some (Inr True)
              then Some (Inr (Moved (captured_ck b sr sc er ec)), relocate_ck b sr sc er ec)
              else Some (Inr Rejected, b))))"
proof (cases "subscriptable sr \<and> subscriptable sc")
  case False
  then have "get_figure b sr sc = Inl IndexError" using assms by (simp add: get_figure_wrap)
  then show ?thesis using False by (simp add: move_figure_ck_def)
next
  case True
  note start = this
  show ?thesis
  proof (cases "cell b (wrap sr) (wrap sc)")
    case None
    then show ?thesis using start assms by (simp add: move_figure_ck_def get_figure_wrap)
  next
    case (Some f)
    have g0: "get_figure b sr sc = Inr (Some f)"
      using start Some by (simp add: get_figure_wrap[OF assms])
    obtain v where v: "is_valid_move_ck f b sr sc er ec is_killer = Some (Inr v)"
        "v \<longrightarrow> check_pos er ec \<and> cell b er ec = None \<and> (\<exists>d n. along sr sc d n (er, ec))"
      using is_valid_move_ck_returns[OF assms, of f sr sc er ec is_killer] by blast
    show ?thesis
    proof (cases v)
      case False
      then show ?thesis
        using start Some v g0 by (simp add: move_figure_ck_def)
    next
      case True
      then obtain d n where on: "check_pos er ec" and al: "along sr sc d n (er, ec)"
        using v(2) by blast
      let ?over = "before_landing sr sc er ec"
      let ?b1 = "if 2 \<le> \<bar>er - sr\<bar> then put b (fst ?over) (snd ?over) None else b"
      have sg: "(if 0 < er - sr then 1 else - 1) = sgn (er - sr)"
               "(if 0 < ec - sc then 1 else - 1) = sgn (ec - sc)"
        using along_delta(2,3)[OF al] by simp_all
      have wf1: "well_formed ?b1" using assms by (simp add: well_formed_put)
      have s1: "set_figure ?b1 er ec (Some f) = Inr (put ?b1 er ec (Some f))"
        by (rule set_figure_on_board[OF wf1 on])
      have wf2: "well_formed (put ?b1 er ec (Some f))" by (rule well_formed_put[OF wf1])
      have s2: "set_figure (put ?b1 er ec (Some f)) sr sc None
                  = Inr (put (put ?b1 er ec (Some f)) (wrap sr) (wrap sc) None)"
        using start by (simp add: set_figure_wrap[OF wf2])
      have wf3: "well_formed (put (put ?b1 er ec (Some f)) (wrap sr) (wrap sc) None)"
        by (rule well_formed_put[OF wf2])
      have s3: "promote (put (put ?b1 er ec (Some f)) (wrap sr) (wrap sc) None) f er ec
                  = Inr (crown (put (put ?b1 er ec (Some f)) (wrap sr) (wrap sc) None) f er ec)"
        by (rule promote_crown[OF wf3 on])
      have valid: "is_valid_move_ck f b sr sc er ec is_killer = Some (Inr True)"
        using v(1) True by simp
      have "move_figure_ck b sr sc er ec is_killer
              = Some (Inr (Moved (captured_ck b sr sc er ec)),
                      crown (put (put ?b1 er ec (Some f)) (wrap sr) (wrap sc) None) f er ec)"
      proof (cases "2 \<le> \<bar>er - sr\<bar>")
        case False
        then show ?thesis
          using s1 s2 s3
          by (simp add: move_figure_ck_def Let_def g0 valid sg captured_ck_def)
      next
        case True
        then have "2 \<le> n" using along_delta(1)[OF al] by simp
        then have "on_board ?over" by (rule along_before_landing[OF al])
        then have ov: "check_pos (er - sgn (er - sr)) (ec - sgn (ec - sc))"
          by (simp add: on_board_def before_landing_def)
        have g1: "get_figure b (er - sgn (er - sr)) (ec - sgn (ec - sc))
                    = Inr (captured_ck b sr sc er ec)"
          using True
          by (simp add: get_figure_on_board[OF assms ov] captured_ck_def occupant_def
                before_landing_def)
        have p1: "set_figure b (er - sgn (er - sr)) (ec - sgn (ec - sc)) None
                    = Inr (put b (fst ?over) (snd ?over) None)"
          by (simp add: set_figure_on_board[OF assms ov] before_landing_def)
        have sg': "sgn (er - sr) = (if 0 < er - sr then 1 else - 1)"
                  "sgn (ec - sc) = (if 0 < ec - sc then 1 else - 1)"
          using sg by simp_all
        show ?thesis
          using True s1 s2 s3 g1 p1 unfolding sg'
          by (cases "0 < er - sr"; cases "0 < ec - sc")
             (simp_all add: move_figure_ck_def Let_def g0 valid)
      qed
      moreover have "relocate_ck b sr sc er ec
              = crown (put (put ?b1 er ec (Some f)) (wrap sr) (wrap sc) None) f er ec"
        using Some by (simp add: relocate_ck_def Let_def)
      ultimately show ?thesis
        using start Some valid by simp
    qed
  qed
qed

lemma well_formed_CheckersBoard: "well_formed CheckersBoard_initialize_board"
  by (simp add: well_formed_def CheckersBoard_initialize_board_def)

section \<open>A move is applied as a whole or not at all\<close>

text \<open>
  Claim C9. On an 8 x 8 board \<open>move_figure\<close> returns, in chess and in checkers, in one of
  three ways. Either it reports a move, and then the board is the committed one: the
  mover relocated, in checkers also the square jumped over emptied and the mover crowned
  on the farthest row. Or it returns the rejected signal, or it raises IndexError for an
  origin that is no subscript; in both cases the board is the one before the call. No
  other board is ever left behind.
\<close>

theorem move_figure_atomic:
  assumes "well_formed b" and "well_formed cb"
  shows "((\<exists>f. cell b (wrap sr) (wrap sc) = Some f
             \<and> move_figure b sr sc er ec
                 = Some (Inr (Moved (cell b er ec)), relocate b sr sc er ec))
          \<or> move_figure b sr sc er ec = Some (Inr Rejected, b)
          \<or> move_figure b sr sc er ec = Some (Inl IndexError, b))
       \<and> ((\<exists>f. cell cb (wrap sr) (wrap sc) = Some f
             \<and> move_figure_ck cb sr sc er ec is_killer
                 = Some (Inr (Moved (captured_ck cb sr sc er ec)), relocate_ck cb sr sc er ec))
          \<or> move_figure_ck cb sr sc er ec is_killer = Some (Inr Rejected, cb)
          \<or> move_figure_ck cb sr sc er ec is_killer = Some (Inl IndexError, cb))"
proof
  show "(\<exists>f. cell b (wrap sr) (wrap sc) = Some f
             \<and> move_figure b sr sc er ec
                 = Some (Inr (Moved (cell b er ec)), relocate b sr sc er ec))
          \<or> move_figure b sr sc er ec = Some (Inr Rejected, b)
          \<or> move_figure b sr sc er ec = Some (Inl IndexError, b)"
    unfolding move_figure_outcome[OF assms(1)]
    by (cases "cell b (wrap sr) (wrap sc)") auto
  show "(\<exists>f. cell cb (wrap sr) (wrap sc) = Some f
             \<and> move_figure_ck cb sr sc er ec is_killer
                 = Some (Inr (Moved (captured_ck cb sr sc er ec)), relocate_ck cb sr sc er ec))
          \<or> move_figure_ck cb sr sc er ec is_killer = Some (Inr Rejected, cb)
          \<or> move_figure_ck cb sr sc er ec is_killer = Some (Inl IndexError, cb)"
    unfolding move_figure_ck_outcome[OF assms(2)]
    by (cases "cell cb (wrap sr) (wrap sc)") auto
qed

text \<open>
  The opening moves e2-e4 in chess and a3-b4 in checkers are committed; neither
  captures.
\<close>

theorem move_figure_atomic_witness:
  "well_formed Board_initialize_board \<and> well_formed CheckersBoard_initialize_board
   \<and> move_figure Board_initialize_board 6 4 4 4
        = Some (Inr (Moved None), relocate Board_initialize_board 6 4 4 4)
   \<and> move_figure_ck CheckersBoard_initialize_board 5 0 4 1 False
        = Some (Inr (Moved None), relocate_ck CheckersBoard_initialize_board 5 0 4 1)"
proof -
  have e1: "fst (the (move_figure Board_initialize_board 6 4 4 4)) = Inr (Moved None)"
    by code_simp
  have e2: "fst (the (move_figure_ck CheckersBoard_initialize_board 5 0 4 1 False))
              = Inr (Moved None)"
    by code_simp
  show ?thesis
    using move_figure_atomic[OF well_formed_Board well_formed_CheckersBoard, of 6 4 4 4 False]
      move_figure_atomic[OF well_formed_Board well_formed_CheckersBoard, of 5 0 4 1 False]
      e1 e2 well_formed_Board well_formed_CheckersBoard
    by auto
qed

section \<open>Requests off the board\<close>

text \<open>What \<open>Figure.is_valid_move\<close> returns, given the list of possible moves.\<close>

lemma is_valid_move_exact:
  assumes "well_formed b" and "get_possible_moves f b r c = Some (Inr ms)"
  shows "is_valid_move f b r c er ec =
           Some (Inr (check_pos er ec \<and> \<not> own_at b (color f) (er, ec)
                      \<and> ((er, ec) \<in> set ms \<or> kind f = Mage)))"
proof (cases "check_pos er ec")
  case False
  then show ?thesis by (simp add: is_valid_move_def)
next
  case True
  then show ?thesis
    using assms
    by (cases "cell b er ec")
       (auto simp: is_valid_move_def get_figure_on_board own_at_def occupant_def)
qed

text \<open>What \<open>Checker.is_valid_move\<close> returns, given the list of possible moves.\<close>

lemma is_valid_move_ck_exact:
  assumes "well_formed b" and "get_possible_moves_ck f b r c is_killer = Some (Inr ms)"
  shows "is_valid_move_ck f b r c er ec is_killer =
           Some (Inr (check_pos er ec \<and> occupant b (er, ec) = None \<and> (er, ec) \<in> set ms))"
proof (cases "check_pos er ec")
  case False
  then show ?thesis by (simp add: is_valid_move_ck_def)
next
  case True
  then show ?thesis
    using assms
    by (cases "cell b er ec")
       (auto simp: is_valid_move_ck_def get_figure_on_board occupant_def)
qed

lemma along_near:
  assumes "along r c d n sq"
  shows "on_board sq \<and> \<not> far_off r c"
proof -
  have d: "(fst d = 1 \<or> fst d = - 1) \<and> (snd d = 1 \<or> snd d = - 1)"
    using assms checker_direction_values unfolding along_def by blast
  have n: "1 \<le> n" "on_board sq" "sq = ray r c (fst d) (snd d) n"
    using assms unfolding along_def by auto
  have "on_board (ray r c (fst d) (snd d) 1)"
  proof (cases "n = 1")
    case True
    then show ?thesis using n by simp
  next
    case False
    then have "1 \<in> {1..<n}" using n(1) by auto
    then show ?thesis using assms unfolding along_def by blast
  qed
  then have "\<not> far_off r c"
    using d by (auto simp: on_board_def ray_def check_pos_def far_off_def)
  then show ?thesis using n(2) by simp
qed

lemma get_possible_moves_ck_near:
  assumes "well_formed b"
  shows "\<exists>ms. get_possible_moves_ck f b r c is_killer = Some (Inr ms)
           \<and> list_all on_board ms \<and> (far_off r c \<longrightarrow> ms = [])"
proof -
  obtain ms where ms: "get_possible_moves_ck f b r c is_killer = Some (Inr ms)"
      "\<forall>sq\<in>set ms. \<exists>d n. along r c d n sq"
    using get_possible_moves_ck_returns[OF assms, of f r c is_killer] by meson
  have each: "on_board sq \<and> \<not> far_off r c" if mem: "sq \<in> set ms" for sq
    using ms(2) mem along_near by blast
  have "list_all on_board ms" using each by (simp add: list_all_iff)
  moreover have "ms = []" if far: "far_off r c"
  proof (cases ms)
    case (Cons sq rest)
    then have "sq \<in> set ms" by simp
    then show ?thesis using each far by blast
  qed simp
  ultimately show ?thesis using ms(1) by blast
qed

text \<open>
  Claim C4, as the code has it, for the figures of chess.py (\<open>f\<close> on the board \<open>b\<close>) and
  of checkers.py (\<open>p\<close> on the board \<open>cb\<close>), on boards of 8 x 8 squares. Whatever the
  coordinates, in range or not, \<open>get_possible_moves\<close> raises nothing and returns squares
  of the board only, and none at all from an origin more than two squares off the board.
  \<open>is_valid_move\<close> raises nothing and returns \<open>False\<close> for every violation of a rule: a
  target off the board, a target that holds a figure of the mover's colour (in checkers:
  any piece), a target that is not in the list of possible moves (unless the figure is a
  Mage); it returns \<open>True\<close> otherwise. An origin off the board is not refused as such.
\<close>

theorem requests_never_raise:
  assumes "well_formed b" and "well_formed cb"
  shows "(\<exists>ms. get_possible_moves f b r c = Some (Inr ms)
            \<and> list_all on_board ms \<and> (far_off r c \<longrightarrow> ms = [])
            \<and> is_valid_move f b r c er ec =
                Some (Inr (check_pos er ec \<and> \<not> own_at b (color f) (er, ec)
                           \<and> ((er, ec) \<in> set ms \<or> kind f = Mage))))
       \<and> (\<exists>ms. get_possible_moves_ck p cb r c is_killer = Some (Inr ms)
            \<and> list_all on_board ms \<and> (far_off r c \<longrightarrow> ms = [])
            \<and> is_valid_move_ck p cb r c er ec is_killer =
                Some (Inr (check_pos er ec \<and> occupant cb (er, ec) = None
                           \<and> (er, ec) \<in> set ms)))"
proof
  obtain ms where ms: "get_possible_moves f b r c = Some (Inr ms)"
      "list_all on_board ms" "far_off r c \<longrightarrow> ms = []"
    using get_possible_moves_returns[OF assms(1), of f r c] by blast
  show "\<exists>ms. get_possible_moves f b r c = Some (Inr ms)
            \<and> list_all on_board ms \<and> (far_off r c \<longrightarrow> ms = [])
            \<and> is_valid_move f b r c er ec =
                Some (Inr (check_pos er ec \<and> \<not> own_at b (color f) (er, ec)
                           \<and> ((er, ec) \<in> set ms \<or> kind f = Mage)))"
    using ms is_valid_move_exact[OF assms(1) ms(1), of er ec] by blast
  obtain cs where cs: "get_possible_moves_ck p cb r c is_killer = Some (Inr cs)"
      "list_all on_board cs" "far_off r c \<longrightarrow> cs = []"
    using get_possible_moves_ck_near[OF assms(2), of p r c is_killer] by blast
  show "\<exists>ms. get_possible_moves_ck p cb r c is_killer = Some (Inr ms)
            \<and> list_all on_board ms \<and> (far_off r c \<longrightarrow> ms = [])
            \<and> is_valid_move_ck p cb r c er ec is_killer =
                Some (Inr (check_pos er ec \<and> occupant cb (er, ec) = None
                           \<and> (er, ec) \<in> set ms))"
    using cs is_valid_move_ck_exact[OF assms(2) cs(1), of er ec] by blast
qed

text \<open>
  On the opening positions: a black Rook asked from (8, 0) is answered with squares of
  the board; asked from (12, 0) it has no moves, and neither has a white Checker; the
  white Rook on (7, 0) may move neither off the board to (8, 0) nor onto its own Knight
  on (7, 1); the white Checker on (5, 0) may not move onto its own piece on (6, 1).
\<close>

theorem requests_never_raise_witness:
  "well_formed Board_initialize_board \<and> well_formed CheckersBoard_initialize_board
   \<and> (\<exists>ms. get_possible_moves (Figure Black Rook) Board_initialize_board 8 0 = Some (Inr ms)
          \<and> list_all on_board ms)
   \<and> far_off 12 0
   \<and> get_possible_moves (Figure Black Rook) Board_initialize_board 12 0 = Some (Inr [])
   \<and> get_possible_moves_ck (Piece White Checker) CheckersBoard_initialize_board 12 0 False
        = Some (Inr [])
   \<and> is_valid_move (Figure White Rook) Board_initialize_board 7 0 8 0 = Some (Inr False)
   \<and> is_valid_move (Figure White Rook) Board_initialize_board 7 0 7 1 = Some (Inr False)
   \<and> is_valid_move_ck (Piece White Checker) CheckersBoard_initialize_board 5 0 6 1 False
        = Some (Inr False)"
proof -
  note wf = well_formed_Board well_formed_CheckersBoard
  have far: "far_off 12 0" by (simp add: far_off_def)
  have off: "\<not> check_pos 8 0" by (simp add: check_pos_def)
  have own: "own_at Board_initialize_board White (7, 1)"
    by (simp add: own_at_def occupant_def cell_def Board_initialize_board_def back_rank_def)
  have occ: "occupant CheckersBoard_initialize_board (6, 1) \<noteq> None"
    by (simp add: occupant_def cell_def CheckersBoard_initialize_board_def)
  have a: "\<exists>ms. get_possible_moves (Figure Black Rook) Board_initialize_board 8 0 = Some (Inr ms)
          \<and> list_all on_board ms"
    using requests_never_raise[OF wf, of "Figure Black Rook" 8 0 0 0] by blast
  have b: "get_possible_moves (Figure Black Rook) Board_initialize_board 12 0 = Some (Inr [])"
    using requests_never_raise[OF wf, of "Figure Black Rook" 12 0 0 0] far by auto
  have c: "get_possible_moves_ck (Piece White Checker) CheckersBoard_initialize_board 12 0 False
        = Some (Inr [])"
    using requests_never_raise[OF wf, of _ 12 0 0 0 "Piece White Checker" False] far by auto
  have d: "is_valid_move (Figure White Rook) Board_initialize_board 7 0 8 0 = Some (Inr False)"
    using requests_never_raise[OF wf, of "Figure White Rook" 7 0 8 0] off by auto
  have e: "is_valid_move (Figure White Rook) Board_initialize_board 7 0 7 1 = Some (Inr False)"
    using requests_never_raise[OF wf, of "Figure White Rook" 7 0 7 1] own by auto
  have f: "is_valid_move_ck (Piece White Checker) CheckersBoard_initialize_board 5 0 6 1 False
        = Some (Inr False)"
    using requests_never_raise[OF wf, of _ 5 0 6 1 "Piece White Checker" False] occ by auto
  show ?thesis using wf far a b c d e f by blast
qed

text \<open>
  Asked from (8, 0), one row below the board, a black Rook on the opening position is
  given the square (7, 0), where a white Rook stands.
\<close>

theorem origin_off_board_counterexample:
  "\<not> check_pos 8 0
   \<and> get_possible_moves (Figure Black Rook) Board_initialize_board 8 0 = Some (Inr [(7, 0)])"
  by code_simp

section \<open>Undo and the power of a Demon\<close>

text \<open>
  Claim C1 at a position of the special variant. The position is reached from the
  opening by four moves. There the white Demon, which still has the power of a King,
  captures the Spearman on (1, 6), and the move is undone at once. The squares, the turn,
  the counter and the list of moves are as before, but the Demon on (2, 6) keeps the
  power of a Spearman: \<open>undo_move\<close> does not restore it, so the board is not the prior one.
\<close>

theorem undo_keeps_demon_power:
  "play (Game_init False) [Select 4 6 3 6, Select 1 0 2 0, Select 3 6 2 6, Select 2 0 3 0]
     = Some (Inr Running, demon_position)
   \<and> cell (board demon_position) 2 6 = Some (Figure White (Demon NKing))
   \<and> play demon_position [Select 2 6 1 6, Undo]
       = Some (Inr Running,
               demon_position
                 \<lparr>board := put (board demon_position) 2 6 (Some (Figure White (Demon NSpearman)))\<rparr>)
   \<and> put (board demon_position) 2 6 (Some (Figure White (Demon NSpearman)))
       \<noteq> board demon_position"
  by code_simp

section \<open>The KingChecker and the duty to capture\<close>

text \<open>A Checker in a chain of captures, or with a capture at hand, is given captures only.\<close>

lemma Checker_captures_only:
  assumes "well_formed b" and "is_killer \<or> capture_squares b me r c \<noteq> []"
  shows "get_possible_moves_ck (Piece me Checker) b r c is_killer
           = Some (Inr (capture_squares b me r c))"
  using assms Checker_moves[OF assms(1), of me r c is_killer] by auto

text \<open>
  Claim C3 at the position \<open>king_position\<close>. The white KingChecker on (5, 4) can capture
  the black Checker on (4, 3) by landing on (3, 2). Asked with \<open>is_killer\<close> set, it is
  nevertheless given seven squares that capture nothing beside the landing square (3, 2);
  a Checker asked from the same square is given (3, 2) alone.
\<close>

theorem KingChecker_offers_plain_moves:
  "can_capture (board king_position) White 5 4 (- 1, - 1)
   \<and> get_possible_moves_ck (Piece White KingChecker) (board king_position) 5 4 True
       = Some (Inr [(6, 5), (7, 6), (6, 3), (7, 2), (4, 5), (3, 6), (2, 7), (3, 2)])
   \<and> get_possible_moves_ck (Piece White Checker) (board king_position) 5 4 True
       = Some (Inr [(3, 2)])"
  by code_simp

text \<open>
  Claim C7 at the same position. White picks the KingChecker on (5, 4) and jumps to
  (3, 2) over the Checker on (4, 3). From (3, 2) a further capture is at hand, over the
  Checker on (2, 1), and the program asks for the next target of the same piece with
  White still to move. White then answers (4, 3), a plain step back: the move is
  accepted, the turn passes to Black, and the Checker on (2, 1) is still on the board.
\<close>

theorem KingChecker_leaves_chain:
  "play_ck king_position Figure_prompt [Square 5 4, Square 3 2]
     = Some (Inr (Target_prompt 3 2 True),
             king_position\<lparr>board := relocate_ck (board king_position) 5 4 3 2\<rparr>)
   \<and> can_capture (relocate_ck (board king_position) 5 4 3 2) White 3 2 (- 1, - 1)
   \<and> play_ck king_position Figure_prompt [Square 5 4, Square 3 2, Square 4 3]
       = Some (Inr Figure_prompt,
               king_position
                 \<lparr>board := relocate_ck (relocate_ck (board king_position) 5 4 3 2) 3 2 4 3,
                  current_turn := Black, move_count := 41 / 2\<rparr>)
   \<and> cell (relocate_ck (relocate_ck (board king_position) 5 4 3 2) 3 2 4 3) 2 1
       = Some (Piece Black Checker)"
  by code_simp

section \<open>The chess controller after a move\<close>

lemma choose_figure_chosen:
  assumes "well_formed (board g)" and "choose_figure g col_of sr sc"
  shows "check_pos sr sc \<and> (\<exists>f. cell (board g) sr sc = Some f \<and> col_of f = current_turn g)"
proof -
  have on: "check_pos sr sc"
    using assms(2) by (auto simp: choose_figure_def check_pos_def split: if_splits)
  then show ?thesis
    using assms
    by (cases "cell (board g) sr sc")
       (auto simp: choose_figure_def get_figure_on_board check_pos_def)
qed

text \<open>What is known when \<open>move_figure\<close> reports a move from a square of the board.\<close>

lemma move_figure_moved:
  assumes "well_formed b" and "check_pos sr sc"
    and "move_figure b sr sc er ec = Some (Inr (Moved cap), b')"
  shows "\<exists>f. cell b sr sc = Some f \<and> check_pos er ec \<and> (er, ec) \<noteq> (sr, sc)
           \<and> cap = cell b er ec \<and> \<not> own_at b (color f) (er, ec)
           \<and> b' = relocate b sr sc er ec \<and> well_formed b'
           \<and> cell b' er ec = Some f \<and> cell b' sr sc = None"
proof -
  have sub: "subscriptable sr \<and> subscriptable sc" "wrap sr = sr" "wrap sc = sc"
    using assms(2) subscriptable_on_board[OF assms(2)]
    by (simp_all add: wrap_on_board check_pos_def)
  obtain f where f: "cell b sr sc = Some f"
    using assms(3) sub unfolding move_figure_outcome[OF assms(1)]
    by (cases "cell b sr sc") auto
  have valid: "is_valid_move f b sr sc er ec = Some (Inr True)"
    using assms(3) sub f unfolding move_figure_outcome[OF assms(1)]
    by (auto split: if_splits)
  have res: "cap = cell b er ec" "b' = relocate b sr sc er ec"
    using assms(3) sub f valid unfolding move_figure_outcome[OF assms(1)] by auto
  obtain ms where ms: "get_possible_moves f b sr sc = Some (Inr ms)"
    using get_possible_moves_returns[OF assms(1), of f sr sc] by blast
  have ok: "check_pos er ec" "\<not> own_at b (color f) (er, ec)"
    using valid unfolding is_valid_move_exact[OF assms(1) ms] by auto
  have ne: "(er, ec) \<noteq> (sr, sc)"
    using ok(2) f by (auto simp: own_at_def occupant_def)
  have wf1: "well_formed (put b er ec v)" for v by (rule well_formed_put[OF assms(1)])
  have wf': "well_formed b'"
    unfolding res(2) relocate_def by (intro well_formed_put assms(1))
  have c1: "cell b' er ec = Some f"
    using ne f sub
    by (simp add: res(2) relocate_def cell_put[OF wf1 assms(2) ok(1)]
          cell_put[OF assms(1) ok(1) ok(1)])
  have c2: "cell b' sr sc = None"
    using sub by (simp add: res(2) relocate_def cell_put[OF wf1 assms(2) assms(2)])
  show ?thesis using f ok ne res wf' c1 c2 by blast
qed

text \<open>When the move goes through, the loop body records it and settles the turn.\<close>

lemma play_body_moved:
  assumes "well_formed (board g)" and "choose_figure g color sr sc"
    and "move_figure (board g) sr sc er ec = Some (Inr (Moved cap), b')"
  shows "play_body g (Select sr sc er ec) =
           (case after_move g (cell (board g) sr sc) b' sr sc er ec cap of
              (st, g') \<Rightarrow> Some (Inr st, g'))"
proof -
  obtain on: "check_pos sr sc" and "\<exists>f. cell (board g) sr sc = Some f"
    using choose_figure_chosen[OF assms(1,2)] by blast
  then obtain f where f: "cell (board g) sr sc = Some f" by blast
  have g0: "get_figure (board g) sr sc = Inr (Some f)"
    using f by (simp add: get_figure_on_board[OF assms(1) on])
  have tgt: "check_pos er ec"
    using move_figure_moved[OF assms(1) on assms(3)] by blast
  obtain hints where hints: "get_possible_moves f (board g) sr sc = Some (Inr hints)"
    using get_possible_moves_returns[OF assms(1), of f sr sc] by blast
  have asked: "(if kind f = Mage then Some (Inr True)
                else (case get_possible_moves f (board g) sr sc of
                        None \<Rightarrow> None
                      | Some (Inl e) \<Rightarrow> Some (Inl e)
                      | Some (Inr hints) \<Rightarrow>
                          Some (Inr (0 \<le> er \<and> er < 8 \<and> 0 \<le> ec \<and> ec < 8))))
               = Some (Inr True)"
    using hints tgt by (simp add: check_pos_def)
  show ?thesis
    unfolding play_body_def
    using assms(2) g0 asked assms(3) f by simp
qed

section \<open>The capture of a King\<close>

text \<open>
  Claim C8. The player to move has chosen a figure of theirs on \<open>(sr, sc)\<close> and
  \<open>move_figure\<close> reports that the move to \<open>(er, ec)\<close> captured a King. Then \<open>play\<close> ends
  with the side to move, which is the colour of the mover, as the winner; the turn has
  not been passed on, the move is recorded, and whatever commands follow are not read.
\<close>

theorem king_capture_ends_game:
  assumes "well_formed (board g)" and "choose_figure g color sr sc"
    and "move_figure (board g) sr sc er ec = Some (Inr (Moved (Some (Figure kc King))), b')"
  shows "\<exists>g'. play g (Select sr sc er ec # rest) = Some (Inr (Won (current_turn g)), g')
           \<and> play g [Select sr sc er ec] = Some (Inr (Won (current_turn g)), g')
           \<and> current_turn g' = current_turn g
           \<and> moves g' = moves g @ [Move sr sc er ec (Some (Figure kc King))]
           \<and> (\<exists>mover. cell (board g) sr sc = Some mover \<and> color mover = current_turn g)"
proof -
  obtain st g' where after:
      "after_move g (cell (board g) sr sc) b' sr sc er ec (Some (Figure kc King)) = (st, g')"
    by (cases "after_move g (cell (board g) sr sc) b' sr sc er ec (Some (Figure kc King))")
  have st: "st = Won (current_turn g)"
    using after by (simp add: after_move_def Let_def split: prod.splits)
  have g': "current_turn g' = current_turn g"
      "moves g' = moves g @ [Move sr sc er ec (Some (Figure kc King))]"
    using after
    by (auto simp: after_move_def Let_def split: option.splits figure.splits kind.splits)
  have body: "play_body g (Select sr sc er ec) = Some (Inr (Won (current_turn g)), g')"
    using play_body_moved[OF assms] after st by simp
  have mover: "\<exists>mover. cell (board g) sr sc = Some mover \<and> color mover = current_turn g"
    using choose_figure_chosen[OF assms(1,2)] by blast
  show ?thesis
    using body g' mover by simp
qed

text \<open>
  In the classic game 1. e4 f6 2. Qh5 a6 leads to \<open>mate_position\<close>; there the white Queen
  takes the King on (0, 4), White has won, and the command that follows is not read.
\<close>

theorem king_capture_ends_game_witness:
  "play (Game_init True) [Select 6 4 4 4, Select 1 5 2 5, Select 7 3 3 7, Select 1 0 2 0]
     = Some (Inr Running, mate_position)
   \<and> well_formed (board mate_position) \<and> choose_figure mate_position color 3 7
   \<and> move_figure (board mate_position) 3 7 0 4
       = Some (Inr (Moved (Some (Figure Black King))), relocate (board mate_position) 3 7 0 4)
   \<and> (\<exists>g'. play mate_position [Select 3 7 0 4, Select 1 1 2 1] = Some (Inr (Won White), g')
           \<and> current_turn g' = White)"
proof -
  have reach: "play (Game_init True) [Select 6 4 4 4, Select 1 5 2 5, Select 7 3 3 7, Select 1 0 2 0]
     = Some (Inr Running, mate_position)"
    by code_simp
  have wf: "well_formed (board mate_position)"
    by (simp add: well_formed_def mate_position_def back_rank_def empty_row_def)
  have ch: "choose_figure mate_position color 3 7" by code_simp
  have mv: "move_figure (board mate_position) 3 7 0 4
       = Some (Inr (Moved (Some (Figure Black King))), relocate (board mate_position) 3 7 0 4)"
    by code_simp
  have turn: "current_turn mate_position = White" by (simp add: mate_position_def)
  have "\<exists>g'. play mate_position [Select 3 7 0 4, Select 1 1 2 1] = Some (Inr (Won White), g')
           \<and> current_turn g' = White"
    using king_capture_ends_game[OF wf ch mv, of "[Select 1 1 2 1]"] turn by auto
  then show ?thesis using reach wf ch mv by blast
qed

section \<open>The power of a Demon\<close>



section \<open>Checkers is played on the dark squares\<close>

lemma dark_iff:
  "dark b \<longleftrightarrow> (\<forall>r c. check_pos r c \<longrightarrow> cell b r c = None \<or> (r + c) mod 2 = 1)"
proof -
  have rows: "i \<in> set [0, 1, 2, 3, 4, 5, 6, 7 :: int] \<longleftrightarrow> 0 \<le> i \<and> i < 8" for i
    by auto
  show ?thesis
    unfolding dark_def list_all_iff Ball_def rows check_pos_def by blast
qed

lemma CheckersBoard_rows:
  "CheckersBoard_initialize_board =
     [[None, Some (Piece Black Checker), None, Some (Piece Black Checker),
       None, Some (Piece Black Checker), None, Some (Piece Black Checker)],
      [Some (Piece Black Checker), None, Some (Piece Black Checker), None,
       Some (Piece Black Checker), None, Some (Piece Black Checker), None],
      [None, Some (Piece Black Checker), None, Some (Piece Black Checker),
       None, Some (Piece Black Checker), None, Some (Piece Black Checker)],
      [None, None, None, None, None, None, None, None],
      [None, None, None, None, None, None, None, None],
      [Some (Piece White Checker), None, Some (Piece White Checker), None,
       Some (Piece White Checker), None, Some (Piece White Checker), None],
      [None, Some (Piece White Checker), None, Some (Piece White Checker),
       None, Some (Piece White Checker), None, Some (Piece White Checker)],
      [Some (Piece White Checker), None, Some (Piece White Checker), None,
       Some (Piece White Checker), None, Some (Piece White Checker), None]]"
  by (simp add: CheckersBoard_initialize_board_def)

lemma dark_CheckersBoard: "dark CheckersBoard_initialize_board"
  unfolding CheckersBoard_rows by (simp add: dark_def cell_def)

lemma even_shift: "(a + 2 * k) mod 2 = a mod (2::int)"
  by simp

lemma along_parity:
  assumes "along r c d n sq"
  shows "(fst sq + snd sq) mod 2 = (r + c) mod 2"
proof -
  have d: "(fst d = 1 \<or> fst d = - 1) \<and> (snd d = 1 \<or> snd d = - 1)"
    using assms checker_direction_values unfolding along_def by blast
  have sq: "fst sq = r + int n * fst d" "snd sq = c + int n * snd d"
    using assms unfolding along_def ray_def by auto
  have "\<exists>k. fst sq + snd sq = (r + c) + 2 * k"
  proof -
    from d consider "fst d = 1" "snd d = 1" | "fst d = 1" "snd d = - 1"
      | "fst d = - 1" "snd d = 1" | "fst d = - 1" "snd d = - 1"
      by blast
    then show ?thesis
    proof cases
      case 1
      then have "fst sq + snd sq = (r + c) + 2 * int n" unfolding sq by simp
      then show ?thesis by blast
    next
      case 2
      then have "fst sq + snd sq = (r + c) + 2 * 0" unfolding sq by simp
      then show ?thesis by blast
    next
      case 3
      then have "fst sq + snd sq = (r + c) + 2 * 0" unfolding sq by simp
      then show ?thesis by blast
    next
      case 4
      then have "fst sq + snd sq = (r + c) + 2 * (- int n)" unfolding sq by simp
      then show ?thesis by blast
    qed
  qed
  then obtain k where "fst sq + snd sq = (r + c) + 2 * k" by blast
  then show ?thesis using even_shift[of "r + c" k] by simp
qed

lemma wrap_parity: "(wrap i + wrap j) mod 2 = (i + j) mod 2"
proof -
  have "\<exists>k. wrap i + wrap j = (i + j) + 2 * k"
  proof (cases "i < 0"; cases "j < 0")
    assume "i < 0" "j < 0"
    then have "wrap i + wrap j = (i + j) + 2 * 8" by (simp add: wrap_def)
    then show ?thesis by blast
  next
    assume "i < 0" "\<not> j < 0"
    then have "wrap i + wrap j = (i + j) + 2 * 4" by (simp add: wrap_def)
    then show ?thesis by blast
  next
    assume "\<not> i < 0" "j < 0"
    then have "wrap i + wrap j = (i + j) + 2 * 4" by (simp add: wrap_def)
    then show ?thesis by blast
  next
    assume "\<not> i < 0" "\<not> j < 0"
    then have "wrap i + wrap j = (i + j) + 2 * 0" by (simp add: wrap_def)
    then show ?thesis by blast
  qed
  then obtain k where "wrap i + wrap j = (i + j) + 2 * k" by blast
  then show ?thesis using even_shift[of "i + j" k] by simp
qed

text \<open>A reported move leaves a well-formed board with every piece on a dark square.\<close>

lemma move_figure_ck_dark:
  assumes "well_formed b" and "dark b"
    and "move_figure_ck b sr sc er ec is_killer = Some (Inr (Moved cap), b')"
  shows "well_formed b' \<and> dark b'"
proof -
  have sub: "subscriptable sr \<and> subscriptable sc"
    using assms(3) unfolding move_figure_ck_outcome[OF assms(1)] by (auto split: if_splits)
  obtain f where f: "cell b (wrap sr) (wrap sc) = Some f"
    using assms(3) sub unfolding move_figure_ck_outcome[OF assms(1)]
    by (cases "cell b (wrap sr) (wrap sc)") auto
  have valid: "is_valid_move_ck f b sr sc er ec is_killer = Some (Inr True)"
    using assms(3) sub f unfolding move_figure_ck_outcome[OF assms(1)]
    by (auto split: if_splits)
  have b': "b' = relocate_ck b sr sc er ec"
    using assms(3) sub f valid unfolding move_figure_ck_outcome[OF assms(1)] by auto
  obtain d n where on: "check_pos er ec" and al: "along sr sc d n (er, ec)"
    using is_valid_move_ck_returns[OF assms(1), of f sr sc er ec is_killer] valid by auto
  have S: "check_pos (wrap sr) (wrap sc)"
    using sub wrap_range by (simp add: check_pos_def)
  define over where "over = before_landing sr sc er ec"
  define b1 where "b1 = (if 2 \<le> \<bar>er - sr\<bar> then put b (fst over) (snd over) None else b)"
  define b2 where "b2 = put b1 er ec (Some f)"
  define b3 where "b3 = put b2 (wrap sr) (wrap sc) None"
  have wf1: "well_formed b1" using assms(1) by (simp add: b1_def well_formed_put)
  have wf2: "well_formed b2" unfolding b2_def by (rule well_formed_put[OF wf1])
  have wf3: "well_formed b3" unfolding b3_def by (rule well_formed_put[OF wf2])
  have rel: "b' = crown b3 f er ec"
    using f by (simp add: b' relocate_ck_def Let_def b3_def b2_def b1_def over_def)
  have wf': "well_formed b'" unfolding rel by (rule well_formed_crown[OF wf3])
  have c1: "cell b1 r c = None \<or> cell b1 r c = cell b r c" if rc: "check_pos r c" for r c
  proof (cases "2 \<le> \<bar>er - sr\<bar>")
    case False
    then show ?thesis by (simp add: b1_def)
  next
    case True
    then have "2 \<le> n" using along_delta(1)[OF al] by simp
    then have "on_board over" unfolding over_def by (rule along_before_landing[OF al])
    then have ov: "check_pos (fst over) (snd over)" by (simp add: on_board_def)
    show ?thesis using True by (simp add: b1_def cell_put[OF assms(1) ov rc])
  qed
  have c2: "cell b2 r c = (if r = er \<and> c = ec then Some f else cell b1 r c)"
    if rc: "check_pos r c" for r c
    unfolding b2_def by (rule cell_put[OF wf1 on rc])
  have c3: "cell b3 r c = (if r = wrap sr \<and> c = wrap sc then None else cell b2 r c)"
    if rc: "check_pos r c" for r c
    unfolding b3_def by (rule cell_put[OF wf2 S rc])
  have c4: "cell b' r c = None \<or> cell b' r c = cell b r c \<or> (r = er \<and> c = ec)"
    if rc: "check_pos r c" for r c
  proof (cases "r = er \<and> c = ec")
    case True
    then show ?thesis by simp
  next
    case False
    have e4: "cell b' r c = cell b3 r c"
      using False unfolding rel crown_def by (auto simp: cell_put[OF wf3 on rc])
    have e3: "cell b3 r c = None \<or> cell b3 r c = cell b1 r c"
      using False by (auto simp: c3[OF rc] c2[OF rc])
    show ?thesis using e4 e3 c1[OF rc] by auto
  qed
  have "(wrap sr + wrap sc) mod 2 = 1"
    using assms(2) S f unfolding dark_iff by fastforce
  then have odd_end: "(er + ec) mod 2 = 1"
    using along_parity[OF al] wrap_parity[of sr sc] by simp
  have "cell b' r c = None \<or> (r + c) mod 2 = 1" if rc: "check_pos r c" for r c
  proof -
    from c4[OF rc] show ?thesis
    proof (elim disjE)
      assume "cell b' r c = cell b r c"
      then show ?thesis using assms(2) rc unfolding dark_iff by auto
    next
      assume "r = er \<and> c = ec"
      then show ?thesis using odd_end by simp
    qed simp
  qed
  then have "dark b'" unfolding dark_iff by blast
  then show ?thesis using wf' by simp
qed

lemma reachable_ck_invariant: "reachable_ck b \<Longrightarrow> well_formed b \<and> dark b"
proof (induction rule: reachable_ck.induct)
  case start
  then show ?case using well_formed_CheckersBoard dark_CheckersBoard by simp
next
  case (move b start_row start_col end_row end_col is_killer captured_figure b')
  then show ?case using move_figure_ck_dark by blast
qed

text \<open>
  Claim C10. In the opening position of checkers every piece stands on a dark square (row
  plus column odd). Every destination that a Checker or a KingChecker is given from a
  square \<open>(r, c)\<close> of a board of eight rows of eight squares has the colour of that square.
  A call of \<open>CheckersBoard.move_figure\<close> that reports a move on such a board with all its
  pieces on dark squares leaves such a board with all its pieces on dark squares. So every
  board \<open>p\<close> that can arise from the opening position has all its pieces on dark squares.
\<close>

theorem pieces_stay_on_dark_squares:
  "dark CheckersBoard_initialize_board
   \<and> (well_formed b \<longrightarrow>
        (\<exists>ms. get_possible_moves_ck f b r c is_killer = Some (Inr ms)
              \<and> list_all (\<lambda>sq. (fst sq + snd sq) mod 2 = (r + c) mod 2) ms))
   \<and> (well_formed b \<and> dark b
        \<and> move_figure_ck b start_row start_col end_row end_col is_killer
            = Some (Inr (Moved captured_figure), b')
        \<longrightarrow> well_formed b' \<and> dark b')
   \<and> (reachable_ck p \<longrightarrow> well_formed p \<and> dark p)"
proof -
  have dests: "\<exists>ms. get_possible_moves_ck f b r c is_killer = Some (Inr ms)
                 \<and> list_all (\<lambda>sq. (fst sq + snd sq) mod 2 = (r + c) mod 2) ms"
    if wf: "well_formed b"
  proof -
    obtain ms where ms: "get_possible_moves_ck f b r c is_killer = Some (Inr ms)"
        "\<forall>sq\<in>set ms. \<exists>d n. along r c d n sq"
      using get_possible_moves_ck_returns[OF wf, of f r c is_killer] by meson
    have "list_all (\<lambda>sq. (fst sq + snd sq) mod 2 = (r + c) mod 2) ms"
      unfolding list_all_iff using ms(2) along_parity by blast
    then show ?thesis using ms(1) by blast
  qed
  have step: "well_formed b' \<and> dark b'"
    if "well_formed b \<and> dark b
        \<and> move_figure_ck b start_row start_col end_row end_col is_killer
            = Some (Inr (Moved captured_figure), b')"
    using that move_figure_ck_dark by blast
  show ?thesis
    using dark_CheckersBoard dests step reachable_ck_invariant by blast
qed

text \<open>
  The opening move a3-b4. The white Checker on (5, 0) is given the one destination (4, 1),
  of the colour of its square; the move is reported, and the board it leaves can arise,
  has eight rows of eight squares and has its pieces on dark squares, the moved Checker
  among them.
\<close>

theorem pieces_stay_on_dark_squares_witness:
  "dark CheckersBoard_initialize_board
   \<and> (\<exists>ms. get_possible_moves_ck (Piece White Checker) CheckersBoard_initialize_board
              5 0 False = Some (Inr ms)
          \<and> list_all (\<lambda>sq. (fst sq + snd sq) mod 2 = (5 + 0) mod 2) ms)
   \<and> move_figure_ck CheckersBoard_initialize_board 5 0 4 1 False
       = Some (Inr (Moved None), relocate_ck CheckersBoard_initialize_board 5 0 4 1)
   \<and> cell (relocate_ck CheckersBoard_initialize_board 5 0 4 1) 4 1 = Some (Piece White Checker)
   \<and> well_formed (relocate_ck CheckersBoard_initialize_board 5 0 4 1)
   \<and> dark (relocate_ck CheckersBoard_initialize_board 5 0 4 1)
   \<and> reachable_ck (relocate_ck CheckersBoard_initialize_board 5 0 4 1)"
proof -
  have mv: "move_figure_ck CheckersBoard_initialize_board 5 0 4 1 False
              = Some (Inr (Moved None), relocate_ck CheckersBoard_initialize_board 5 0 4 1)"
    by code_simp
  have re: "reachable_ck (relocate_ck CheckersBoard_initialize_board 5 0 4 1)"
    by (rule reachable_ck.move[OF reachable_ck.start mv])
  have pc: "cell (relocate_ck CheckersBoard_initialize_board 5 0 4 1) 4 1
              = Some (Piece White Checker)"
    by code_simp
  have wf: "well_formed CheckersBoard_initialize_board"
    by (rule well_formed_CheckersBoard)
  note inst = pieces_stay_on_dark_squares
    [where b = CheckersBoard_initialize_board and f = "Piece White Checker"
       and r = 5 and c = 0 and is_killer = False
       and start_row = 5 and start_col = 0 and end_row = 4 and end_col = 1
       and captured_figure = None
       and b' = "relocate_ck CheckersBoard_initialize_board 5 0 4 1"
       and p = "relocate_ck CheckersBoard_initialize_board 5 0 4 1"]
  show ?thesis
    using inst mv re pc wf by blast
qed

end
